theory Spec2Isabelle
  imports Main "HOL-Library.Word" "HOL-Library.Signed_Division"
begin

unbundle bit_operations_syntax

section \<open>Data model (\<open>coretrace/logger.hpp\<close> and the logger implementation)\<close>

text \<open>
  The logger is one process-wide set of globals. The model is sequential: one call runs
  to completion before the next starts, so the two mutexes and the acquire/release
  orderings have no counterpart here. Machine widths are those of an LP64 POSIX target:
  \<open>size_t\<close> and \<open>uintptr_t\<close> are 64 bits wide, \<open>int\<close> is read as a mathematical integer
  in the ranges where the source does not overflow. A \<open>std::string_view\<close> is the list of
  its bytes (NUL bytes included); a C string is read from a buffer by \<open>cstr\<close>. The
  \<open>int\<close> flags that only ever hold 0 or 1 are booleans.
\<close>

datatype Level = Info | Warn | Error

text \<open>\<open>static_cast<int>(level)\<close>.\<close>

fun level_int :: "Level \<Rightarrow> int" where
  "level_int Info = 0"
| "level_int Warn = 1"
| "level_int Error = 2"

datatype Color =
    Reset
  | Dim | Bold | Underline | Italic | Blink | Reverse | Hidden | Strike
  | Black | Red | Green | Yellow | Blue | Magenta | Cyan | White
  | Gray | BrightRed | BrightGreen | BrightYellow | BrightBlue | BrightMagenta
  | BrightCyan | BrightWhite
  | BgBlack | BgRed | BgGreen | BgYellow | BgBlue | BgMagenta | BgCyan | BgWhite
  | BgGray | BgBrightRed | BgBrightGreen | BgBrightYellow | BgBrightBlue
  | BgBrightMagenta | BgBrightCyan | BgBrightWhite

text \<open>
  What one call of \<open>write(2, data, size)\<close> can answer: a byte count (0 included), the
  error \<open>EINTR\<close>, or any other error.
\<close>

datatype write_result = Wrote nat | ErrIntr | ErrOther

text \<open>
  The observable effects of the logger, in order: a call of the custom sink (identified
  by its function pointer) with a buffer, or a call of \<open>write\<close> on descriptor 2 with a
  buffer and the answer it got.
\<close>

datatype event = SinkCall nat string | Write2 string write_result

record ModuleTable =
  names :: "string list"
  count :: nat
  filter_active :: bool

record logger =
  g_log_enabled :: bool
  g_prefix_buf :: string
  g_prefix_len :: nat
  g_min_level :: int
  g_min_level_set_explicitly :: bool
  g_modules :: ModuleTable
  g_modules_set_explicitly :: bool
  g_thread_safe :: bool
  g_sink :: "nat option"
  g_timestamps_enabled :: bool
  g_source_location_enabled :: bool
  g_init_once :: bool
  color_cached :: int
  pid_cached :: int
  fd2_answers :: "write_result list"
  trace :: "event list"

text \<open>
  The process environment as the logger reads it: the three variables, whether
  descriptor 2 is a terminal, and the process id.
\<close>

record environ =
  CT_LOG_LEVEL :: "string option"
  CT_DEBUG :: "string option"
  NO_COLOR :: "string option"
  isatty2 :: bool
  getpid :: int

definition NUL :: char where
  "NUL = CHR 0x00"

text \<open>A character array read as a C string: the bytes before the first NUL.\<close>

definition cstr :: "string \<Rightarrow> string" where
  "cstr buf = takeWhile (\<lambda>c. c \<noteq> NUL) buf"

section \<open>Low-level write\<close>

text \<open>
  The retry loop of \<open>write_raw\<close> on descriptor 2. \<open>fd2_answers\<close> scripts the answers of
  the coming \<open>write\<close> calls; once the script is used up every call accepts the whole
  buffer. A byte count is capped at the size offered, as POSIX guarantees.
\<close>

fun write_fd2 :: "write_result list \<Rightarrow> string \<Rightarrow> event list \<times> write_result list" where
  "write_fd2 rs [] = ([], rs)"
| "write_fd2 [] data = ([Write2 data (Wrote (length data))], [])"
| "write_fd2 (Wrote n # rs) data =
     (let written = min n (length data) in
      if written > 0 then
        (let (evs, rs') = write_fd2 rs (drop written data)
         in (Write2 data (Wrote written) # evs, rs'))
      else ([Write2 data (Wrote written)], rs))"
| "write_fd2 (ErrIntr # rs) data =
     (let (evs, rs') = write_fd2 rs data in (Write2 data ErrIntr # evs, rs'))"
| "write_fd2 (ErrOther # rs) data = ([Write2 data ErrOther], rs)"

definition write_raw :: "string \<Rightarrow> logger \<Rightarrow> logger" where
  "write_raw data s =
     (if data = [] then s
      else case g_sink s of
        Some sink \<Rightarrow> s\<lparr>trace := trace s @ [SinkCall sink data]\<rparr>
      | None \<Rightarrow>
          (let (evs, rs) = write_fd2 (fd2_answers s) data
           in s\<lparr>fd2_answers := rs, trace := trace s @ evs\<rparr>))"

definition write_str :: "string \<Rightarrow> logger \<Rightarrow> logger" where
  "write_str v s = (if v = [] then s else write_raw v s)"

subsection \<open>Decimal and hexadecimal numbers\<close>

text \<open>The digit loop of \<open>write_dec\<close>; the list is \<open>buf[0..idx)\<close>.\<close>

function dec_loop :: "64 word \<Rightarrow> string \<Rightarrow> string" where
  "dec_loop v buf =
     (if v \<noteq> 0 \<and> length buf < 32
      then dec_loop (v div 10) (buf @ [char_of (48 + unat (v mod 10))])
      else buf)"
  by pat_completeness auto
termination
  by (relation "measure (\<lambda>(v, buf). 32 - length buf)") auto

text \<open>The in-place reversal loop of \<open>write_dec\<close>.\<close>

function reverse_loop :: "nat \<Rightarrow> string \<Rightarrow> string" where
  "reverse_loop i buf =
     (if i < length buf div 2
      then reverse_loop (Suc i)
             (buf[i := buf ! (length buf - 1 - i), length buf - 1 - i := buf ! i])
      else buf)"
  by pat_completeness auto
termination
  by (relation "measure (\<lambda>(i, buf). length buf div 2 - i)") auto

definition dec_buf :: "64 word \<Rightarrow> string" where
  "dec_buf v = reverse_loop 0 (if v = 0 then ''0'' else dec_loop v [])"

definition write_dec :: "64 word \<Rightarrow> logger \<Rightarrow> logger" where
  "write_dec v s = write_raw (dec_buf v) s"

text \<open>One round of the nibble loop of \<open>write_hex\<close>, on \<open>(started, buf[0..idx))\<close>.\<close>

definition hex_step :: "64 word \<Rightarrow> int \<Rightarrow> bool \<times> string \<Rightarrow> bool \<times> string" where
  "hex_step v shift st =
     (let nibble = unat (drop_bit (nat shift) v AND 0xF) in
      if \<not> fst st \<and> nibble = 0 \<and> shift \<noteq> 0 then st
      else (True, snd st @ [if nibble < 10 then char_of (48 + nibble)
                            else char_of (97 + (nibble - 10))]))"

function hex_loop :: "64 word \<Rightarrow> int \<Rightarrow> bool \<times> string \<Rightarrow> bool \<times> string" where
  "hex_loop v shift st =
     (if shift \<ge> 0 then hex_loop v (shift - 4) (hex_step v shift st) else st)"
  by pat_completeness auto
termination
  by (relation "measure (\<lambda>(v, shift, st). nat (shift + 1))") auto

definition hex_buf :: "64 word \<Rightarrow> string" where
  "hex_buf v =
     (let (started, buf) = hex_loop v 60 (False, ''0x'')
      in if \<not> started then buf @ ''0'' else buf)"

definition write_hex :: "64 word \<Rightarrow> logger \<Rightarrow> logger" where
  "write_hex v s = write_raw (hex_buf v) s"

section \<open>Global state and helpers\<close>

definition initial_logger :: logger where
  "initial_logger =
     \<lparr>g_log_enabled = False,
      g_prefix_buf = ''==ct=='' @ replicate 58 NUL,
      g_prefix_len = 6,
      g_min_level = 0,
      g_min_level_set_explicitly = False,
      g_modules = \<lparr>names = replicate 32 (replicate 32 NUL), count = 0, filter_active = False\<rparr>,
      g_modules_set_explicitly = False,
      g_thread_safe = True,
      g_sink = None,
      g_timestamps_enabled = False,
      g_source_location_enabled = False,
      g_init_once = False,
      color_cached = - 1,
      pid_cached = 0,
      fd2_answers = [],
      trace = []\<rparr>"

record PrefixSnapshot =
  snapshot_value :: string
  snapshot_len :: nat

text \<open>\<open>memcpy(dst, src, n)\<close> for \<open>n\<close> within both arrays.\<close>

definition memcpy :: "string \<Rightarrow> string \<Rightarrow> nat \<Rightarrow> string" where
  "memcpy dst src n = take n src @ drop n dst"

definition read_prefix_snapshot :: "logger \<Rightarrow> PrefixSnapshot" where
  "read_prefix_snapshot s =
     (let len = g_prefix_len s;
          len = (if len > 64 then 64 else len)
      in \<lparr>snapshot_value = memcpy (replicate 64 NUL) (g_prefix_buf s) len,
          snapshot_len = len\<rparr>)"

text \<open>\<open>use_color\<close> and its function-local cache (\<open>-1\<close>: not decided yet).\<close>

definition use_color :: "environ \<Rightarrow> logger \<Rightarrow> bool \<times> logger" where
  "use_color env s =
     (if color_cached s \<noteq> - 1 then (color_cached s \<noteq> 0, s)
      else if NO_COLOR env \<noteq> None then (False, s\<lparr>color_cached := 0\<rparr>)
      else (isatty2 env, s\<lparr>color_cached := (if isatty2 env then 1 else 0)\<rparr>))"

definition sv_eq :: "string \<Rightarrow> string \<Rightarrow> bool" where
  "sv_eq a b = (if length a \<noteq> length b then False else list_all2 (\<lambda>x y. x = y) a b)"

definition to_lower :: "char \<Rightarrow> char" where
  "to_lower c =
     (if (65::nat) \<le> of_char c \<and> of_char c \<le> (90::nat) then char_of (of_char c + 32 :: nat) else c)"

text \<open>\<open>cstr_ieq\<close> on the bytes of two C strings (their terminators left out).\<close>

fun cstr_ieq :: "string \<Rightarrow> string \<Rightarrow> bool" where
  "cstr_ieq (a # as) (b # bs) = (if to_lower a \<noteq> to_lower b then False else cstr_ieq as bs)"
| "cstr_ieq [] [] = True"
| "cstr_ieq [] (b # bs) = False"
| "cstr_ieq (a # as) [] = False"

subsection \<open>Timestamp\<close>

text \<open>What \<open>clock_gettime\<close> and \<open>gmtime_r\<close> hand to \<open>write_timestamp_to\<close>.\<close>

record wall_clock =
  tm_year :: int
  tm_mon :: int
  tm_mday :: int
  tm_hour :: int
  tm_min :: int
  tm_sec :: int
  tv_nsec :: int

text \<open>\<open>static_cast<char>('0' + n)\<close>.\<close>

definition chr0 :: "int \<Rightarrow> char" where
  "chr0 n = char_of (48 + n)"

text \<open>The bytes \<open>write_timestamp_to\<close> stores, in order of \<open>idx\<close>.\<close>

definition write_timestamp_to :: "wall_clock \<Rightarrow> string" where
  "write_timestamp_to clk =
     (let millis = tv_nsec clk sdiv 1000000;
          year = tm_year clk + 1900;
          mon = tm_mon clk + 1
      in [CHR ''['',
          chr0 (year sdiv 1000), chr0 ((year sdiv 100) smod 10),
          chr0 ((year sdiv 10) smod 10), chr0 (year smod 10), CHR ''-'',
          chr0 (mon sdiv 10), chr0 (mon smod 10), CHR ''-'',
          chr0 (tm_mday clk sdiv 10), chr0 (tm_mday clk smod 10), CHR ''T'',
          chr0 (tm_hour clk sdiv 10), chr0 (tm_hour clk smod 10), CHR '':'',
          chr0 (tm_min clk sdiv 10), chr0 (tm_min clk smod 10), CHR '':'',
          chr0 (tm_sec clk sdiv 10), chr0 (tm_sec clk smod 10), CHR ''.'',
          chr0 (millis sdiv 100), chr0 ((millis sdiv 10) smod 10), chr0 (millis smod 10),
          CHR '']'', CHR '' ''])"

subsection \<open>Basename\<close>

fun basename_loop :: "string \<Rightarrow> string \<Rightarrow> string" where
  "basename_loop [] lastp = lastp"
| "basename_loop (c # p) lastp = basename_loop p (if c = CHR ''/'' then p else lastp)"

definition basename_of :: "string option \<Rightarrow> string" where
  "basename_of path =
     (case path of
        None \<Rightarrow> ''<unknown>''
      | Some p \<Rightarrow> basename_loop (cstr p) (cstr p))"

subsection \<open>Module table (state lock held)\<close>

text \<open>
  A name copied into a row of the table and terminated: the two stores of
  \<open>add_module_locked\<close> (and of \<open>set_prefix\<close>). Callers keep \<open>length name\<close> below the
  row's size.
\<close>

definition store_cstr :: "string \<Rightarrow> string \<Rightarrow> string" where
  "store_cstr row name =
     (fold (\<lambda>i r. r[i := name ! i]) [0..<length name] row)[length name := NUL]"

definition MAX_MODULES :: nat where
  "MAX_MODULES = 32"

definition MODULE_NAME_LEN :: nat where
  "MODULE_NAME_LEN = 32"

text \<open>The registered names as the lookups read them: rows \<open>0..count-1\<close>, as C strings.\<close>

definition registered :: "ModuleTable \<Rightarrow> string list" where
  "registered m = map cstr (take (count m) (names m))"

definition add_module_locked :: "string \<Rightarrow> ModuleTable \<Rightarrow> ModuleTable" where
  "add_module_locked name m =
     (if list_ex (\<lambda>entry. sv_eq name entry) (registered m) then m
      else if count m < MAX_MODULES then
        m\<lparr>names := (names m)[count m := store_cstr (names m ! count m) name],
          count := count m + 1,
          filter_active := True\<rparr>
      else m)"

text \<open>The parsing loop of \<open>init_from_env\<close> over the value of \<open>CT_DEBUG\<close>.\<close>

function parse_modules :: "string \<Rightarrow> ModuleTable \<Rightarrow> ModuleTable" where
  "parse_modules start m =
     (if start = [] then m
      else
        (let tok = takeWhile (\<lambda>c. c \<noteq> CHR '','') start;
             rest = dropWhile (\<lambda>c. c \<noteq> CHR '','') start;
             m' = (if length tok > 0 \<and> length tok < MODULE_NAME_LEN
                   then add_module_locked tok m else m)
         in parse_modules (if rest \<noteq> [] then tl rest else rest) m'))"
  by pat_completeness auto
termination
proof (relation "measure (\<lambda>(start, m). length start)")
  show "wf (measure (\<lambda>(start, m). length start))" by simp
next
  fix start :: string and m :: ModuleTable and x xa xb
  assume ne: "start \<noteq> []" and xa: "xa = dropWhile (\<lambda>c. c \<noteq> CHR '','') start"
  have le: "length xa \<le> length start"
    unfolding xa by (rule length_dropWhile_le)
  have "length (if xa \<noteq> [] then tl xa else xa) < length start"
  proof (cases xa)
    case Nil
    with ne show ?thesis by simp
  next
    case (Cons a list)
    with le show ?thesis by simp
  qed
  then show "((if xa \<noteq> [] then tl xa else xa, xb), start, m)
      \<in> measure (\<lambda>(start, m). length start)"
    by simp
qed

definition init_from_env :: "environ \<Rightarrow> logger \<Rightarrow> logger" where
  "init_from_env env s =
     (let s = (if \<not> g_min_level_set_explicitly s then
                 (case CT_LOG_LEVEL env of
                    None \<Rightarrow> s
                  | Some env_level \<Rightarrow>
                      if cstr_ieq (cstr env_level) ''warn'' then s\<lparr>g_min_level := 1\<rparr>
                      else if cstr_ieq (cstr env_level) ''error'' then s\<lparr>g_min_level := 2\<rparr>
                      else s\<lparr>g_min_level := 0\<rparr>)
               else s)
      in if \<not> g_modules_set_explicitly s then
           (case CT_DEBUG env of
              None \<Rightarrow> s
            | Some env_debug \<Rightarrow>
                if cstr env_debug \<noteq> []
                then s\<lparr>g_modules := parse_modules (cstr env_debug) (g_modules s)\<rparr>
                else s)
         else s)"

section \<open>Public operations\<close>

text \<open>\<open>pthread_once(&g_init_once, init_from_env)\<close>.\<close>

definition init_once :: "environ \<Rightarrow> logger \<Rightarrow> logger" where
  "init_once env s = (if g_init_once s then s else (init_from_env env s)\<lparr>g_init_once := True\<rparr>)"

definition enable_logging :: "logger \<Rightarrow> logger" where
  "enable_logging s = s\<lparr>g_log_enabled := True\<rparr>"

definition disable_logging :: "logger \<Rightarrow> logger" where
  "disable_logging s = s\<lparr>g_log_enabled := False\<rparr>"

definition log_is_enabled :: "logger \<Rightarrow> bool" where
  "log_is_enabled s = g_log_enabled s"

definition set_prefix :: "string \<Rightarrow> logger \<Rightarrow> logger" where
  "set_prefix prefix s =
     (let len = length prefix;
          len = (if len \<ge> 64 then 64 - 1 else len)
      in s\<lparr>g_prefix_buf := (fold (\<lambda>i b. b[i := prefix ! i]) [0..<len] (g_prefix_buf s))[len := NUL],
           g_prefix_len := len\<rparr>)"

definition set_min_level :: "environ \<Rightarrow> Level \<Rightarrow> logger \<Rightarrow> logger" where
  "set_min_level env level s =
     (let s = s\<lparr>g_min_level_set_explicitly := True\<rparr>;
          s = init_once env s
      in s\<lparr>g_min_level := level_int level\<rparr>)"

definition min_level :: "logger \<Rightarrow> int" where
  "min_level s = g_min_level s"

definition enable_module :: "environ \<Rightarrow> string \<Rightarrow> logger \<Rightarrow> logger" where
  "enable_module env name s =
     (if name = [] \<or> length name \<ge> MODULE_NAME_LEN then s
      else
        (let s = s\<lparr>g_modules_set_explicitly := True\<rparr>;
             s = init_once env s
         in s\<lparr>g_modules := add_module_locked name (g_modules s)\<rparr>))"

text \<open>
  The search-and-shift loop of \<open>disable_module\<close>: \<open>i\<close> is the first row whose name
  matches; rows \<open>i+1..count-1\<close> move down by one, the last row keeps its bytes.
\<close>

definition remove_module_locked :: "string \<Rightarrow> ModuleTable \<Rightarrow> ModuleTable" where
  "remove_module_locked name m =
     (let i = length (takeWhile (\<lambda>entry. \<not> sv_eq name entry) (registered m))
      in if i < count m then
           (let ns = fold (\<lambda>j ns. ns[j := memcpy (ns ! j) (ns ! (j + 1)) MODULE_NAME_LEN])
                       [i..<count m - 1] (names m);
                c = count m - 1
            in m\<lparr>names := ns, count := c,
                 filter_active := (if c = 0 then False else filter_active m)\<rparr>)
         else m)"

definition disable_module :: "environ \<Rightarrow> string \<Rightarrow> logger \<Rightarrow> logger" where
  "disable_module env name s =
     (if name = [] then s
      else
        (let s = s\<lparr>g_modules_set_explicitly := True\<rparr>;
             s = init_once env s
         in s\<lparr>g_modules := remove_module_locked name (g_modules s)\<rparr>))"

definition enable_all_modules :: "environ \<Rightarrow> logger \<Rightarrow> logger" where
  "enable_all_modules env s =
     (let s = s\<lparr>g_modules_set_explicitly := True\<rparr>;
          s = init_once env s
      in s\<lparr>g_modules := (g_modules s)\<lparr>count := 0, filter_active := False\<rparr>\<rparr>)"

definition module_is_enabled :: "string \<Rightarrow> logger \<Rightarrow> bool" where
  "module_is_enabled name s =
     (if \<not> filter_active (g_modules s) then True
      else list_ex (\<lambda>entry. sv_eq name entry) (registered (g_modules s)))"

definition set_thread_safe :: "bool \<Rightarrow> logger \<Rightarrow> logger" where
  "set_thread_safe enabled s = s\<lparr>g_thread_safe := enabled\<rparr>"

definition set_sink :: "nat option \<Rightarrow> logger \<Rightarrow> logger" where
  "set_sink fn s = s\<lparr>g_sink := fn\<rparr>"

definition reset_sink :: "logger \<Rightarrow> logger" where
  "reset_sink s = s\<lparr>g_sink := None\<rparr>"

definition set_timestamps :: "bool \<Rightarrow> logger \<Rightarrow> logger" where
  "set_timestamps enabled s = s\<lparr>g_timestamps_enabled := enabled\<rparr>"

definition set_source_location :: "bool \<Rightarrow> logger \<Rightarrow> logger" where
  "set_source_location enabled s = s\<lparr>g_source_location_enabled := enabled\<rparr>"

section \<open>Colors, labels, system info\<close>

definition ESC :: char where
  "ESC = CHR 0x1B"

text \<open>The \<open>switch\<close> of \<open>color\<close>.\<close>

fun color_code :: "Color \<Rightarrow> string" where
  "color_code Reset = ESC # ''[0m''"
| "color_code Dim = ESC # ''[2m''"
| "color_code Bold = ESC # ''[1m''"
| "color_code Underline = ESC # ''[4m''"
| "color_code Italic = ESC # ''[3m''"
| "color_code Blink = ESC # ''[5m''"
| "color_code Reverse = ESC # ''[7m''"
| "color_code Hidden = ESC # ''[8m''"
| "color_code Strike = ESC # ''[9m''"
| "color_code Black = ESC # ''[30m''"
| "color_code Red = ESC # ''[31m''"
| "color_code Green = ESC # ''[32m''"
| "color_code Yellow = ESC # ''[33m''"
| "color_code Blue = ESC # ''[34m''"
| "color_code Magenta = ESC # ''[35m''"
| "color_code Cyan = ESC # ''[36m''"
| "color_code White = ESC # ''[37m''"
| "color_code Gray = ESC # ''[90m''"
| "color_code BrightRed = ESC # ''[91m''"
| "color_code BrightGreen = ESC # ''[92m''"
| "color_code BrightYellow = ESC # ''[93m''"
| "color_code BrightBlue = ESC # ''[94m''"
| "color_code BrightMagenta = ESC # ''[95m''"
| "color_code BrightCyan = ESC # ''[96m''"
| "color_code BrightWhite = ESC # ''[97m''"
| "color_code BgBlack = ESC # ''[40m''"
| "color_code BgRed = ESC # ''[41m''"
| "color_code BgGreen = ESC # ''[42m''"
| "color_code BgYellow = ESC # ''[43m''"
| "color_code BgBlue = ESC # ''[44m''"
| "color_code BgMagenta = ESC # ''[45m''"
| "color_code BgCyan = ESC # ''[46m''"
| "color_code BgWhite = ESC # ''[47m''"
| "color_code BgGray = ESC # ''[100m''"
| "color_code BgBrightRed = ESC # ''[101m''"
| "color_code BgBrightGreen = ESC # ''[102m''"
| "color_code BgBrightYellow = ESC # ''[103m''"
| "color_code BgBrightBlue = ESC # ''[104m''"
| "color_code BgBrightMagenta = ESC # ''[105m''"
| "color_code BgBrightCyan = ESC # ''[106m''"
| "color_code BgBrightWhite = ESC # ''[107m''"

definition color :: "environ \<Rightarrow> Color \<Rightarrow> logger \<Rightarrow> string \<times> logger" where
  "color env c s =
     (let (u, s) = use_color env s
      in if \<not> u then ([], s) else (color_code c, s))"

text \<open>
  \<open>level_label\<close> and \<open>level_color\<close>; the \<open>return\<close> after each \<open>switch\<close> is for values
  outside the enumeration, which \<open>Level\<close> does not have.
\<close>

fun level_label :: "Level \<Rightarrow> string" where
  "level_label Info = ''INFO''"
| "level_label Warn = ''WARN''"
| "level_label Error = ''ERROR''"

fun level_color :: "environ \<Rightarrow> Level \<Rightarrow> logger \<Rightarrow> string \<times> logger" where
  "level_color env Info s = color env Green s"
| "level_color env Warn s = color env Yellow s"
| "level_color env Error s = color env Red s"

text \<open>\<open>pid\<close> and its function-local cache (\<open>0\<close>: not read yet).\<close>

definition pid :: "environ \<Rightarrow> logger \<Rightarrow> int \<times> logger" where
  "pid env s =
     (if pid_cached s = 0 then (getpid env, s\<lparr>pid_cached := getpid env\<rparr>)
      else (pid_cached s, s))"

section \<open>Log line output\<close>

text \<open>\<open>write_str(color(c))\<close> and \<open>write_str(level_color(level))\<close>.\<close>

definition write_color :: "environ \<Rightarrow> Color \<Rightarrow> logger \<Rightarrow> logger" where
  "write_color env c s = (let (v, s) = color env c s in write_str v s)"

definition write_level_color :: "environ \<Rightarrow> Level \<Rightarrow> logger \<Rightarrow> logger" where
  "write_level_color env level s = (let (v, s) = level_color env level s in write_str v s)"

text \<open>\<open>write_dec(static_cast<size_t>(pid()))\<close>.\<close>

definition write_pid :: "environ \<Rightarrow> logger \<Rightarrow> logger" where
  "write_pid env s = (let (p, s) = pid env s in write_dec (of_int p) s)"

text \<open>\<open>std::source_location\<close>: the file name (a C string, or null) and the line.\<close>

record source_location =
  file_name :: "string option"
  line :: "32 word"

definition write_log_line ::
  "environ \<Rightarrow> wall_clock \<Rightarrow> Level \<Rightarrow> string \<Rightarrow> string \<Rightarrow> source_location \<Rightarrow> logger \<Rightarrow> logger"
where
  "write_log_line env clk level module message loc s =
     (let prefix = read_prefix_snapshot s;
          s = (if g_timestamps_enabled s then write_raw (write_timestamp_to clk) s else s);
          s = write_color env Dim s;
          s = write_raw ''|'' s;
          s = write_pid env s;
          s = write_raw ''|'' s;
          s = write_color env Reset s;
          s = write_raw '' '' s;
          s = write_color env Gray s;
          s = write_color env Italic s;
          s = write_raw (take (snapshot_len prefix) (snapshot_value prefix)) s;
          s = write_raw '' '' s;
          s = write_color env Reset s;
          s = write_level_color env level s;
          s = write_raw ''['' s;
          s = write_str (level_label level) s;
          s = write_raw '']'' s;
          s = write_color env Reset s;
          s = (if g_source_location_enabled s then
                 (let s = write_raw '' '' s;
                      s = write_color env Dim s;
                      file = basename_of (file_name loc);
                      s = write_raw file s;
                      s = write_raw '':'' s;
                      s = write_dec (ucast (line loc)) s
                  in write_color env Reset s)
               else s);
          s = (if module \<noteq> [] then
                 (let s = write_raw '' '' s;
                      s = write_color env Dim s;
                      s = write_raw ''('' s;
                      s = write_raw module s;
                      s = write_raw '')'' s
                  in write_color env Reset s)
               else s);
          s = write_raw '' '' s
      in write_raw message s)"

text \<open>\<open>write_prefix\<close>, the unlocked low-level variant.\<close>

definition write_prefix :: "environ \<Rightarrow> Level \<Rightarrow> logger \<Rightarrow> logger" where
  "write_prefix env level s =
     (let prefix = read_prefix_snapshot s;
          s = write_color env Dim s;
          s = write_raw ''|'' s;
          s = write_pid env s;
          s = write_raw ''|'' s;
          s = write_color env Reset s;
          s = write_raw '' '' s;
          s = write_color env Gray s;
          s = write_color env Italic s;
          s = write_raw (take (snapshot_len prefix) (snapshot_value prefix)) s;
          s = write_raw '' '' s;
          s = write_color env Reset s;
          s = write_level_color env level s;
          s = write_raw ''['' s;
          s = write_str (level_label level) s;
          s = write_raw '']'' s;
          s = write_color env Reset s
      in write_raw '' '' s)"

section \<open>The logging entry points\<close>

record LogEntry =
  level :: Level
  loc :: source_location

definition fallback :: string where
  "fallback = ''coretrace: log format error'' @ [CHR 0x0A]"

text \<open>
  The two overloads of \<open>log\<close>. \<open>rendered\<close> is what \<open>std::vformat(fmt, args...)\<close> gives for
  the call: \<open>Some msg\<close>, or \<open>None\<close> when it throws. The sink callback is taken not to
  throw.
\<close>

definition log :: "environ \<Rightarrow> wall_clock \<Rightarrow> LogEntry \<Rightarrow> string option \<Rightarrow> logger \<Rightarrow> logger" where
  "log env clk entry rendered s =
     (let s = init_once env s in
      if \<not> log_is_enabled s then s
      else if level_int (level entry) < min_level s then s
      else (case rendered of
              Some msg \<Rightarrow>
                if msg = [] then s
                else write_log_line env clk (level entry) [] msg (loc entry) s
            | None \<Rightarrow> write_raw fallback s))"

definition log_module ::
  "environ \<Rightarrow> wall_clock \<Rightarrow> LogEntry \<Rightarrow> string \<Rightarrow> string option \<Rightarrow> logger \<Rightarrow> logger"
where
  "log_module env clk entry mod_name rendered s =
     (let s = init_once env s in
      if \<not> log_is_enabled s then s
      else if level_int (level entry) < min_level s then s
      else if mod_name \<noteq> [] \<and> \<not> module_is_enabled mod_name s then s
      else (case rendered of
              Some msg \<Rightarrow>
                if msg = [] then s
                else write_log_line env clk (level entry) mod_name msg (loc entry) s
            | None \<Rightarrow> write_raw fallback s))"

section \<open>Specification-side definitions\<close>

subsection \<open>Canonical numerals\<close>

text \<open>
  The canonical decimal and lowercase hexadecimal numerals of a natural number, and the
  value a numeral denotes. They are written from the specification, to compare the
  buffers of \<open>write_dec\<close> and \<open>write_hex\<close> against.
\<close>

definition digit_char :: "nat \<Rightarrow> char" where
  "digit_char d = ''0123456789'' ! d"

fun spec_decimal :: "nat \<Rightarrow> string" where
  "spec_decimal n = (if n < 10 then [digit_char n] else spec_decimal (n div 10) @ [digit_char (n mod 10)])"


definition hex_digit :: "nat \<Rightarrow> char" where
  "hex_digit d = ''0123456789abcdef'' ! d"

fun spec_hex :: "nat \<Rightarrow> string" where
  "spec_hex n = (if n < 16 then [hex_digit n] else spec_hex (n div 16) @ [hex_digit (n mod 16)])"


definition dec_value :: "string \<Rightarrow> nat" where
  "dec_value ds = foldl (\<lambda>a c. 10 * a + (of_char c - 48)) 0 ds"

definition hex_digit_value :: "char \<Rightarrow> nat" where
  "hex_digit_value c = (if c \<in> set ''0123456789'' then of_char c - 48 else of_char c - 87)"

definition hex_value :: "string \<Rightarrow> nat" where
  "hex_value hs = foldl (\<lambda>a c. 16 * a + hex_digit_value c) 0 hs"

subsection \<open>What the sink observes\<close>

text \<open>
  The bytes an event delivers: a sink callback takes its whole buffer, a \<open>write\<close> on
  descriptor 2 takes as many bytes as it answered.
\<close>

fun accepted :: "event \<Rightarrow> string" where
  "accepted (SinkCall f d) = d"
| "accepted (Write2 d (Wrote n)) = take n d"
| "accepted (Write2 d ErrIntr) = []"
| "accepted (Write2 d ErrOther) = []"

definition emitted :: "event list \<Rightarrow> string" where
  "emitted evs = concat (map accepted evs)"

text \<open>
  An event that hands the buffer \<open>msg\<close> to the sink in force (\<open>Some f\<close>: the callback
  \<open>f\<close>; \<open>None\<close>: descriptor 2).
\<close>

fun offers :: "nat option \<Rightarrow> string \<Rightarrow> event \<Rightarrow> bool" where
  "offers sink msg (SinkCall f d) = (sink = Some f \<and> d = msg)"
| "offers sink msg (Write2 d r) = (sink = None \<and> d = msg)"

text \<open>An answer of \<open>write\<close> after which the retry loop goes on: progress or \<open>EINTR\<close>.\<close>

fun answer_ok :: "write_result \<Rightarrow> bool" where
  "answer_ok (Wrote n) = (0 < n)"
| "answer_ok ErrIntr = True"
| "answer_ok ErrOther = False"

text \<open>No output is lost: a custom sink is set, or descriptor 2 never fails.\<close>

definition sink_ok :: "logger \<Rightarrow> bool" where
  "sink_ok s = (case g_sink s of Some f \<Rightarrow> True | None \<Rightarrow> list_all answer_ok (fd2_answers s))"

text \<open>
  The color decision in force in state \<open>s\<close>: the cached one if a decision was made, and
  otherwise off when \<open>NO_COLOR\<close> is set, on exactly when descriptor 2 is a terminal.
\<close>

definition color_on :: "environ \<Rightarrow> logger \<Rightarrow> bool" where
  "color_on env s =
     (if color_cached s = - 1 then NO_COLOR env = None \<and> isatty2 env else color_cached s \<noteq> 0)"

text \<open>
  The cached process id: the id stored by the first call that asked for it, whatever
  \<open>getpid\<close> answers now, and the answer of \<open>getpid\<close> while nothing is stored.
\<close>

definition current_pid :: "environ \<Rightarrow> logger \<Rightarrow> int" where
  "current_pid env s = (if pid_cached s = 0 then getpid env else pid_cached s)"

text \<open>The text between the brackets of the level field.\<close>

fun spec_level_name :: "Level \<Rightarrow> string" where
  "spec_level_name Info = ''INFO''"
| "spec_level_name Warn = ''WARN''"
| "spec_level_name Error = ''ERROR''"

text \<open>The prefix in force: the first \<open>g_prefix_len\<close> bytes of the buffer.\<close>

definition stored_prefix :: "logger \<Rightarrow> string" where
  "stored_prefix s = take (g_prefix_len s) (g_prefix_buf s)"

subsection \<open>The line format\<close>

definition spec_padded :: "nat \<Rightarrow> nat \<Rightarrow> string" where
  "spec_padded w n = replicate (w - length (spec_decimal n)) CHR ''0'' @ spec_decimal n"

text \<open>\<open>[YYYY-MM-DDThh:mm:ss.mmm]\<close>, zero-padded, from the broken-down UTC time.\<close>

definition spec_timestamp :: "wall_clock \<Rightarrow> string" where
  "spec_timestamp clk =
     ''['' @ spec_padded 4 (nat (tm_year clk + 1900)) @ ''-'' @
     spec_padded 2 (nat (tm_mon clk + 1)) @ ''-'' @
     spec_padded 2 (nat (tm_mday clk)) @ ''T'' @
     spec_padded 2 (nat (tm_hour clk)) @ '':'' @
     spec_padded 2 (nat (tm_min clk)) @ '':'' @
     spec_padded 2 (nat (tm_sec clk)) @ ''.'' @
     spec_padded 3 (nat (tv_nsec clk) div 1000000) @ '']''"

text \<open>The values \<open>gmtime_r\<close> and \<open>clock_gettime\<close> give, for years 0 to 9999.\<close>

definition calendar :: "wall_clock \<Rightarrow> bool" where
  "calendar clk =
     (0 \<le> tm_year clk + 1900 \<and> tm_year clk + 1900 \<le> 9999 \<and>
      0 \<le> tm_mon clk \<and> tm_mon clk \<le> 11 \<and>
      1 \<le> tm_mday clk \<and> tm_mday clk \<le> 31 \<and>
      0 \<le> tm_hour clk \<and> tm_hour clk \<le> 23 \<and>
      0 \<le> tm_min clk \<and> tm_min clk \<le> 59 \<and>
      0 \<le> tm_sec clk \<and> tm_sec clk \<le> 60 \<and>
      0 \<le> tv_nsec clk \<and> tv_nsec clk < 1000000000)"

text \<open>The final segment of a path: what follows its last \<open>/\<close>.\<close>

definition spec_basename :: "string \<Rightarrow> string" where
  "spec_basename path = rev (takeWhile (\<lambda>c. c \<noteq> CHR ''/'') (rev path))"

definition spec_file_field :: "source_location \<Rightarrow> string" where
  "spec_file_field sloc =
     (case file_name sloc of
        None \<Rightarrow> ''<unknown>''
      | Some f \<Rightarrow> spec_basename (cstr f))"

text \<open>
  \<open>[timestamp] |pid| prefix [LEVEL] file:line (module) message\<close> without colors: the
  optional fields by their switches, one space between fields, the message last.
\<close>

definition spec_log_line ::
  "bool \<Rightarrow> wall_clock \<Rightarrow> nat \<Rightarrow> string \<Rightarrow> Level \<Rightarrow> bool \<Rightarrow> source_location \<Rightarrow> string \<Rightarrow> string \<Rightarrow> string"
where
  "spec_log_line with_ts clk p prefix lvl with_loc sloc module message =
     (if with_ts then spec_timestamp clk @ '' '' else []) @
     ''|'' @ spec_decimal p @ ''|'' @ '' '' @
     prefix @ '' '' @
     ''['' @ spec_level_name lvl @ '']'' @
     (if with_loc then '' '' @ spec_file_field sloc @ '':'' @ spec_decimal (unat (line sloc)) else []) @
     (if module \<noteq> [] then '' ('' @ module @ '')'' else []) @
     '' '' @ message"

subsection \<open>Well-formed states\<close>

text \<open>
  The array sizes of the globals and what every operation keeps true of them: the prefix
  buffer has 64 bytes and a length below 64; the table has 32 rows of 32 bytes, a count
  of at most 32, a terminator in every row in use, and \<open>filter_active\<close> set exactly
  when the count is not zero.
\<close>

definition table_ok :: "ModuleTable \<Rightarrow> bool" where
  "table_ok m =
     (length (names m) = MAX_MODULES \<and>
      list_all (\<lambda>row. length row = MODULE_NAME_LEN) (names m) \<and>
      count m \<le> MAX_MODULES \<and>
      list_all (\<lambda>row. NUL \<in> set row) (take (count m) (names m)) \<and>
      filter_active m = (count m \<noteq> 0))"

definition wf_logger :: "logger \<Rightarrow> bool" where
  "wf_logger s =
     (length (g_prefix_buf s) = 64 \<and> g_prefix_len s \<le> 63 \<and> table_ok (g_modules s))"

subsection \<open>Sequences of module operations\<close>

datatype module_op =
    EnableModule string
  | DisableModule string
  | EnableAllModules
  | EnvSeeding

text \<open>\<open>EnvSeeding\<close> is the lazy initialization as a log call or a setter triggers it.\<close>

fun apply_op :: "environ \<Rightarrow> logger \<Rightarrow> module_op \<Rightarrow> logger" where
  "apply_op env s (EnableModule name) = enable_module env name s"
| "apply_op env s (DisableModule name) = disable_module env name s"
| "apply_op env s EnableAllModules = enable_all_modules env s"
| "apply_op env s EnvSeeding = init_once env s"


subsection \<open>The module names of the environment\<close>




subsection \<open>Proof bookkeeping\<close>

text \<open>
  The invariant of the nibble loop of \<open>write_hex\<close> before the round for nibble
  \<open>k - 1\<close>: nothing is written while the nibbles above are all zero, otherwise the
  numeral of the value above nibble \<open>k - 1\<close> is.
\<close>

definition hex_inv :: "64 word \<Rightarrow> nat \<Rightarrow> bool \<times> string \<Rightarrow> bool" where
  "hex_inv v k st =
     (if unat v div 16 ^ k = 0 \<and> 0 < k then \<not> fst st \<and> snd st = ''0x''
      else fst st \<and> snd st = ''0x'' @ spec_hex (unat v div 16 ^ k))"

text \<open>
  The configuration of a state: everything but the two caches, the script of
  descriptor 2 and the trace.
\<close>

definition config :: "logger \<Rightarrow> logger" where
  "config s = s\<lparr>color_cached := 0, pid_cached := 0, fd2_answers := [], trace := []\<rparr>"

text \<open>
  \<open>emits env s out s'\<close>: from \<open>s\<close> to \<open>s'\<close> the configuration, the color decision and
  the process id stay, the trace grows, and when no output is lost in \<open>s\<close> none is lost
  in \<open>s'\<close> and the sink received \<open>out\<close>.
\<close>

definition emits :: "environ \<Rightarrow> logger \<Rightarrow> string \<Rightarrow> logger \<Rightarrow> bool" where
  "emits env s out s' =
     (config s' = config s \<and> color_on env s' = color_on env s \<and>
      current_pid env s' = current_pid env s \<and>
      (\<exists>evs. trace s' = trace s @ evs \<and>
         (sink_ok s \<longrightarrow> sink_ok s' \<and> emitted evs = out)))"

definition color_str :: "environ \<Rightarrow> logger \<Rightarrow> Color \<Rightarrow> string" where
  "color_str env s c = (if color_on env s then color_code c else [])"

fun level_color_of :: "Level \<Rightarrow> Color" where
  "level_color_of Info = Green"
| "level_color_of Warn = Yellow"
| "level_color_of Error = Red"

text \<open>Everything \<open>write_log_line\<close> writes before the message.\<close>

definition line_head ::
  "environ \<Rightarrow> wall_clock \<Rightarrow> Level \<Rightarrow> string \<Rightarrow> source_location \<Rightarrow> logger \<Rightarrow> string"
where
  "line_head env clk lvl module sloc s =
     (if g_timestamps_enabled s then write_timestamp_to clk else []) @
     color_str env s Dim @ ''|'' @ dec_buf (of_int (current_pid env s)) @ ''|'' @
     color_str env s Reset @ '' '' @
     color_str env s Gray @ color_str env s Italic @
     take (snapshot_len (read_prefix_snapshot s)) (snapshot_value (read_prefix_snapshot s)) @
     '' '' @ color_str env s Reset @
     color_str env s (level_color_of lvl) @ ''['' @ level_label lvl @ '']'' @
     color_str env s Reset @
     (if g_source_location_enabled s then
        '' '' @ color_str env s Dim @ basename_of (file_name sloc) @ '':'' @
        dec_buf (ucast (line sloc)) @ color_str env s Reset
      else []) @
     (if module \<noteq> [] then
        '' '' @ color_str env s Dim @ ''('' @ module @ '')'' @ color_str env s Reset
      else []) @
     '' ''"

subsection \<open>Sample inputs\<close>

definition sample_env :: environ where
  "sample_env =
     \<lparr>CT_LOG_LEVEL = Some ''warn'', CT_DEBUG = Some ''alloc,trace'', NO_COLOR = Some ''1'',
      isatty2 = True, getpid = 4242\<rparr>"

definition sample_clock :: wall_clock where
  "sample_clock =
     \<lparr>tm_year = 125, tm_mon = 0, tm_mday = 15, tm_hour = 10, tm_min = 45, tm_sec = 23,
      tv_nsec = 456000000\<rparr>"

definition sample_loc :: source_location where
  "sample_loc = \<lparr>file_name = Some ''/src/example/main.cpp'', line = 42\<rparr>"

definition sample_entry :: "Level \<Rightarrow> LogEntry" where
  "sample_entry lvl = \<lparr>level = lvl, loc = sample_loc\<rparr>"

text \<open>A process that has enabled logging and installed the callback 1 as its sink.\<close>

definition sample_logger :: logger where
  "sample_logger = set_sink (Some 1) (enable_logging initial_logger)"


text \<open>The same process after \<open>enable_module("alloc")\<close>: the module filter is active.\<close>

definition sample_filtering :: logger where
  "sample_filtering = enable_module sample_env ''alloc'' sample_logger"



section \<open>Numerals: \<open>write_dec\<close> and \<open>write_hex\<close>\<close>

lemma char_of_digit: "d < 10 \<Longrightarrow> char_of (48 + d) = digit_char d"
proof -
  have "list_all (\<lambda>d. char_of (48 + d) = digit_char d) [0..<10]" by code_simp
  then show "d < 10 \<Longrightarrow> char_of (48 + d) = digit_char d"
    by (simp add: list_all_iff)
qed

lemma char_of_hex_digit:
  "d < 16 \<Longrightarrow> (if d < 10 then char_of (48 + d) else char_of (97 + (d - 10))) = hex_digit d"
proof -
  have "list_all (\<lambda>d. (if d < 10 then char_of (48 + d) else char_of (97 + (d - 10))) = hex_digit d)
          [0..<16]" by code_simp
  then show "d < 16 \<Longrightarrow>
      (if d < 10 then char_of (48 + d) else char_of (97 + (d - 10))) = hex_digit d"
    by (simp add: list_all_iff)
qed

declare dec_loop.simps [simp del] reverse_loop.simps [simp del] hex_loop.simps [simp del]
  spec_decimal.simps [simp del] spec_hex.simps [simp del]

lemma reverse_loop_length [simp]: "length (reverse_loop i buf) = length buf"
  by (induction i buf rule: reverse_loop.induct) (subst reverse_loop.simps, simp)

lemma reverse_loop_nth:
  "k < length buf \<Longrightarrow> i \<le> length buf div 2 \<Longrightarrow>
   reverse_loop i buf ! k =
     (if i \<le> k \<and> k < length buf - i then buf ! (length buf - 1 - k) else buf ! k)"
proof (induction i buf arbitrary: k rule: reverse_loop.induct)
  case (1 i buf)
  show ?case
  proof (cases "i < length buf div 2")
    case True
    let ?b = "buf[i := buf ! (length buf - 1 - i), length buf - 1 - i := buf ! i]"
    have len: "length ?b = length buf" by simp
    have "reverse_loop i buf ! k = reverse_loop (Suc i) ?b ! k"
      using True by (subst reverse_loop.simps) simp
    also have "\<dots> = (if Suc i \<le> k \<and> k < length ?b - Suc i then ?b ! (length ?b - 1 - k) else ?b ! k)"
      using "1.IH"[OF True, of k] True "1.prems" by simp
    also have "\<dots> = (if i \<le> k \<and> k < length buf - i then buf ! (length buf - 1 - k) else buf ! k)"
      using True "1.prems" by (auto simp: nth_list_update)
    finally show ?thesis .
  next
    case False
    with "1.prems" have i: "i = length buf div 2" by simp
    have "reverse_loop i buf = buf"
      using False by (subst reverse_loop.simps) simp
    moreover have "i \<le> k \<and> k < length buf - i \<Longrightarrow> length buf - 1 - k = k"
      using i by presburger
    ultimately show ?thesis by auto
  qed
qed

lemma reverse_loop_rev: "reverse_loop 0 buf = rev buf"
  by (rule nth_equalityI) (simp_all add: reverse_loop_nth rev_nth)

lemma spec_decimal_length: "n < 10 ^ k \<Longrightarrow> 0 < k \<Longrightarrow> length (spec_decimal n) \<le> k"
proof (induction n arbitrary: k rule: spec_decimal.induct)
  case (1 n)
  show ?case
  proof (cases "n < 10")
    case True
    then show ?thesis using "1.prems" by (subst spec_decimal.simps) simp
  next
    case False
    then obtain j where k: "k = Suc j" using "1.prems" by (cases k) auto
    with False "1.prems" have j: "0 < j" by (cases j) auto
    have "n div 10 < 10 ^ j" using "1.prems" k by (simp add: less_mult_imp_div_less)
    from "1.IH"[OF False this j] show ?thesis using False k
      by (subst spec_decimal.simps) simp
  qed
qed

lemma dec_loop_eq:
  "v \<noteq> 0 \<Longrightarrow> length buf + length (spec_decimal (unat v)) \<le> 32 \<Longrightarrow>
   dec_loop v buf = buf @ rev (spec_decimal (unat v))"
proof (induction v buf rule: dec_loop.induct)
  case (1 v buf)
  have nz: "unat v \<noteq> 0" using "1.prems"(1) by (simp add: unat_eq_zero)
  have len: "length buf < 32" using "1.prems"(2)
    by (subst (asm) spec_decimal.simps) (auto split: if_splits)
  have d: "unat (v div 10) = unat v div 10" by (simp add: unat_div)
  have m: "unat (v mod 10) = unat v mod 10" by (simp add: unat_mod)
  let ?b = "buf @ [char_of (48 + unat (v mod 10))]"
  have step: "dec_loop v buf = dec_loop (v div 10) ?b"
    using "1.prems"(1) len by (subst dec_loop.simps) simp
  show ?case
  proof (cases "unat v < 10")
    case True
    then have "v div 10 = 0" using d by (simp add: unat_eq_zero[symmetric])
    then have "dec_loop (v div 10) ?b = ?b" by (subst dec_loop.simps) simp
    with step True m show ?thesis
      by (subst spec_decimal.simps) (simp add: char_of_digit)
  next
    case False
    then have nz': "v div 10 \<noteq> 0" using d by (auto simp: unat_eq_zero[symmetric])
    have sd: "spec_decimal (unat v) = spec_decimal (unat v div 10) @ [digit_char (unat v mod 10)]"
      using False by (subst spec_decimal.simps) simp
    have "length ?b + length (spec_decimal (unat (v div 10))) \<le> 32"
      using "1.prems"(2) sd d by simp
    from "1.IH"[OF _ nz' this] "1.prems"(1) len
    have "dec_loop (v div 10) ?b = ?b @ rev (spec_decimal (unat (v div 10)))" by simp
    with step sd d m show ?thesis by (simp add: char_of_digit)
  qed
qed

lemma dec_buf_eq: "dec_buf v = spec_decimal (unat v)"
proof (cases "v = 0")
  case True
  then show ?thesis
    by (simp add: dec_buf_def reverse_loop_rev spec_decimal.simps[of 0] digit_char_def)
next
  case False
  have "unat v < 2 ^ 64" using unsigned_less[of v, where 'a=nat] by simp
  then have "unat v < 10 ^ 20" by simp
  then have "length (spec_decimal (unat v)) \<le> 20" by (rule spec_decimal_length) simp
  then have "dec_loop v [] = rev (spec_decimal (unat v))"
    using dec_loop_eq[OF False, of "[]"] by simp
  with False show ?thesis by (simp add: dec_buf_def reverse_loop_rev)
qed

lemma nibble_eq: "unat (drop_bit (4 * k) (v :: 64 word) AND 0xF) = (unat v div 16 ^ k) mod 16"
proof -
  let ?w = "drop_bit (4 * k) v"
  have a: "?w AND 0xF = take_bit 4 ?w"
    by (simp add: take_bit_eq_mask mask_eq_exp_minus_1)
  have b: "unat (take_bit 4 ?w) = unat ?w mod 16"
    by (simp add: take_bit_eq_mod unat_mod)
  have c: "unat ?w = unat v div 2 ^ (4 * k)"
    by (simp only: unat_drop_bit_eq) (simp only: drop_bit_eq_div)
  have d: "(2::nat) ^ (4 * k) = 16 ^ k" by (simp add: power_mult)
  show ?thesis by (simp only: a b c d)
qed

lemma hex_step_inv:
  assumes "hex_inv v (Suc k) st"
  shows "hex_inv v k (hex_step v (4 * int k) st)"
proof -
  let ?x = "unat v"
  let ?y = "?x div 16 ^ Suc k"
  let ?n = "(?x div 16 ^ k) mod 16"
  have nib: "unat (drop_bit (nat (4 * int k)) v AND 0xF) = ?n"
    using nibble_eq[of k v] by (simp add: nat_mult_distrib)
  have yd: "(?x div 16 ^ k) div 16 = ?y"
    by (simp add: div_mult2_eq[symmetric] mult.commute)
  have y': "?x div 16 ^ k = 16 * ?y + ?n"
    using yd mult_div_mod_eq[of 16 "?x div 16 ^ k"] by simp
  show ?thesis
  proof (cases "?y = 0")
    case True
    then have st: "\<not> fst st" "snd st = ''0x''" using assms by (simp_all add: hex_inv_def)
    show ?thesis
    proof (cases "?n = 0")
      case n0: True
      with True y' have z: "?x div 16 ^ k = 0" by simp
      show ?thesis
      proof (cases "k = 0")
        case True
        then show ?thesis using st z n0 nib
          by (simp add: hex_inv_def hex_step_def Let_def spec_hex.simps[of 0] hex_digit_def
              char_of_digit[of 0, simplified] digit_char_def)
      next
        case False
        then show ?thesis using st z n0 nib
          by (simp add: hex_inv_def hex_step_def Let_def)
      qed
    next
      case False
      have lt: "?x div 16 ^ k < 16" using True y' by simp
      have "?x div 16 ^ k = ?n" using True y' by simp
      then show ?thesis using st False nib lt
        using char_of_hex_digit[OF lt]
        by (simp add: hex_inv_def hex_step_def Let_def spec_hex.simps[of "?x div 16 ^ k"])
    qed
  next
    case False
    then have st: "fst st" "snd st = ''0x'' @ spec_hex ?y" using assms by (simp_all add: hex_inv_def)
    have ge: "\<not> ?x div 16 ^ k < 16" using False y' by simp
    have "spec_hex (?x div 16 ^ k) = spec_hex ?y @ [hex_digit ?n]"
      using ge yd by (subst spec_hex.simps) simp
    moreover have "?x div 16 ^ k \<noteq> 0" using ge by simp
    ultimately show ?thesis using st nib char_of_hex_digit[of ?n]
      by (simp add: hex_inv_def hex_step_def Let_def)
  qed
qed

lemma hex_loop_inv:
  "hex_inv v k st \<Longrightarrow> hex_loop v (4 * int k - 4) st = (True, ''0x'' @ spec_hex (unat v))"
proof (induction k arbitrary: st)
  case 0
  then show ?case by (subst hex_loop.simps) (simp add: hex_inv_def prod_eq_iff)
next
  case (Suc k)
  have "hex_loop v (4 * int (Suc k) - 4) st = hex_loop v (4 * int k - 4) (hex_step v (4 * int k) st)"
    by (subst hex_loop.simps) simp
  with Suc.IH[OF hex_step_inv [OF Suc.prems] ] show ?case by simp
qed

lemma hex_buf_eq: "hex_buf v = ''0x'' @ spec_hex (unat v)"
proof -
  have "unat v < 2 ^ 64" using unsigned_less[of v, where 'a=nat] by simp
  then have "unat v div 16 ^ 16 = 0" by simp
  then have "hex_inv v 16 (False, ''0x'')" by (simp add: hex_inv_def)
  from hex_loop_inv[OF this] show ?thesis by (simp add: hex_buf_def)
qed

lemma digit_char_value: "d < 10 \<Longrightarrow> of_char (digit_char d) - 48 = d"
proof -
  have "list_all (\<lambda>d. of_char (digit_char d) - 48 = d) [0..<10]" by code_simp
  then show "d < 10 \<Longrightarrow> of_char (digit_char d) - 48 = d"
    by (simp add: list_all_iff)
qed

lemma hex_digit_value: "d < 16 \<Longrightarrow> hex_digit_value (hex_digit d) = d"
proof -
  have "list_all (\<lambda>d. hex_digit_value (hex_digit d) = d) [0..<16]" by code_simp
  then show "d < 16 \<Longrightarrow> hex_digit_value (hex_digit d) = d"
    by (simp add: list_all_iff)
qed

lemma digit_char_zero: "d < 10 \<Longrightarrow> (digit_char d = CHR ''0'') = (d = 0)"
proof -
  have "list_all (\<lambda>d. (digit_char d = CHR ''0'') = (d = 0)) [0..<10]" by code_simp
  then show "d < 10 \<Longrightarrow> (digit_char d = CHR ''0'') = (d = 0)"
    by (simp add: list_all_iff)
qed

lemma hex_digit_zero: "d < 16 \<Longrightarrow> (hex_digit d = CHR ''0'') = (d = 0)"
proof -
  have "list_all (\<lambda>d. (hex_digit d = CHR ''0'') = (d = 0)) [0..<16]" by code_simp
  then show "d < 16 \<Longrightarrow> (hex_digit d = CHR ''0'') = (d = 0)"
    by (simp add: list_all_iff)
qed

lemma spec_decimal_ne [simp]: "spec_decimal n \<noteq> []"
  by (subst spec_decimal.simps) simp

lemma spec_hex_ne [simp]: "spec_hex n \<noteq> []"
  by (subst spec_hex.simps) simp

lemma dec_value_spec_decimal: "dec_value (spec_decimal n) = n"
proof (induction n rule: spec_decimal.induct)
  case (1 n)
  show ?case
  proof (cases "n < 10")
    case True
    then show ?thesis
      by (subst spec_decimal.simps) (simp add: dec_value_def digit_char_value)
  next
    case False
    with "1.IH" have "dec_value (spec_decimal (n div 10)) = n div 10" by simp
    then show ?thesis using False
      by (subst spec_decimal.simps) (simp add: dec_value_def digit_char_value)
  qed
qed

lemma hex_value_spec_hex: "hex_value (spec_hex n) = n"
proof (induction n rule: spec_hex.induct)
  case (1 n)
  show ?case
  proof (cases "n < 16")
    case True
    then show ?thesis
      by (subst spec_hex.simps) (simp add: hex_value_def hex_digit_value)
  next
    case False
    with "1.IH" have "hex_value (spec_hex (n div 16)) = n div 16" by simp
    then show ?thesis using False
      by (subst spec_hex.simps) (simp add: hex_value_def hex_digit_value)
  qed
qed

lemma spec_decimal_digits: "set (spec_decimal n) \<subseteq> set ''0123456789''"
proof (induction n rule: spec_decimal.induct)
  case (1 n)
  have d: "digit_char d \<in> set ''0123456789''" if "d < 10" for d
    unfolding digit_char_def using that by (intro nth_mem) simp
  show ?case
  proof (cases "n < 10")
    case True
    then show ?thesis using d[of n] by (subst spec_decimal.simps) simp
  next
    case False
    with "1.IH" d[of "n mod 10"] show ?thesis by (subst spec_decimal.simps) simp
  qed
qed

lemma spec_hex_digits: "set (spec_hex n) \<subseteq> set ''0123456789abcdef''"
proof (induction n rule: spec_hex.induct)
  case (1 n)
  have d: "hex_digit d \<in> set ''0123456789abcdef''" if "d < 16" for d
    unfolding hex_digit_def using that by (intro nth_mem) simp
  show ?case
  proof (cases "n < 16")
    case True
    then show ?thesis using d[of n] by (subst spec_hex.simps) simp
  next
    case False
    with "1.IH" d[of "n mod 16"] show ?thesis by (subst spec_hex.simps) simp
  qed
qed

lemma spec_decimal_hd: "(hd (spec_decimal n) = CHR ''0'') = (n = 0)"
proof (induction n rule: spec_decimal.induct)
  case (1 n)
  show ?case
  proof (cases "n < 10")
    case True
    then show ?thesis by (subst spec_decimal.simps) (simp add: digit_char_zero)
  next
    case False
    with "1.IH" show ?thesis by (subst spec_decimal.simps) simp
  qed
qed

lemma spec_hex_hd: "(hd (spec_hex n) = CHR ''0'') = (n = 0)"
proof (induction n rule: spec_hex.induct)
  case (1 n)
  show ?case
  proof (cases "n < 16")
    case True
    then show ?thesis by (subst spec_hex.simps) (simp add: hex_digit_zero)
  next
    case False
    with "1.IH" show ?thesis by (subst spec_hex.simps) simp
  qed
qed

lemma spec_decimal_zero: "(spec_decimal n = ''0'') = (n = 0)"
  using spec_decimal_hd[of n] by (auto simp: spec_decimal.simps[of 0] digit_char_def)

lemma spec_hex_zero: "(spec_hex n = ''0'') = (n = 0)"
  using spec_hex_hd[of n] by (auto simp: spec_hex.simps[of 0] hex_digit_def)

text \<open>
  Claim C9. For every value \<open>v\<close> (a 64-bit \<open>size_t\<close> or \<open>uintptr_t\<close>),
  \<open>write_dec v\<close> hands the sink the canonical decimal numeral of \<open>v\<close>: digits only,
  denoting \<open>v\<close>, with a leading \<open>0\<close> only for \<open>v = 0\<close>, where it is the single
  character \<open>0\<close>. \<open>write_hex v\<close> hands the sink \<open>0x\<close> followed by the canonical
  lowercase hexadecimal numeral of \<open>v\<close>, with the same properties.
\<close>

theorem write_dec_hex_canonical:
  "write_dec v s = write_raw (dec_buf v) s \<and>
   dec_buf v = spec_decimal (unat v) \<and>
   set (dec_buf v) \<subseteq> set ''0123456789'' \<and>
   dec_value (dec_buf v) = unat v \<and>
   (hd (dec_buf v) = CHR ''0'') = (v = 0) \<and>
   (dec_buf v = ''0'') = (v = 0) \<and>
   write_hex v s = write_raw (hex_buf v) s \<and>
   hex_buf v = ''0x'' @ spec_hex (unat v) \<and>
   set (drop 2 (hex_buf v)) \<subseteq> set ''0123456789abcdef'' \<and>
   hex_value (drop 2 (hex_buf v)) = unat v \<and>
   (hd (drop 2 (hex_buf v)) = CHR ''0'') = (v = 0) \<and>
   (drop 2 (hex_buf v) = ''0'') = (v = 0)"
  using spec_decimal_digits[of "unat v"] spec_hex_digits[of "unat v"]
  by (simp add: write_dec_def write_hex_def dec_buf_eq hex_buf_eq
      dec_value_spec_decimal hex_value_spec_hex spec_decimal_hd spec_hex_hd
      spec_decimal_zero spec_hex_zero unat_eq_zero)

theorem write_dec_hex_canonical_witness:
  "dec_buf 1234 = ''1234'' \<and> hex_buf 0xBEEF = ''0xbeef'' \<and>
   dec_buf 0 = ''0'' \<and> hex_buf 0 = ''0x0''"
proof -
  have d: "spec_decimal (unat (1234 :: 64 word)) = ''1234''"
    by (simp add: spec_decimal.simps digit_char_def)
  have h: "spec_hex (unat (0xBEEF :: 64 word)) = ''beef''"
    by (simp add: spec_hex.simps hex_digit_def)
  have "dec_buf 1234 = spec_decimal (unat (1234 :: 64 word))"
    using write_dec_hex_canonical[where v = 1234 and s = initial_logger] by blast
  moreover have "hex_buf 0xBEEF = ''0x'' @ spec_hex (unat (0xBEEF :: 64 word))"
    using write_dec_hex_canonical[where v = "0xBEEF" and s = initial_logger] by blast
  moreover have "dec_buf 0 = ''0'' \<and> drop 2 (hex_buf 0) = ''0'' \<and> hex_buf 0 = ''0x'' @ spec_hex (unat (0 :: 64 word))"
    using write_dec_hex_canonical[where v = 0 and s = initial_logger] by blast
  ultimately show ?thesis using d h by (simp add: spec_hex.simps[of 0] hex_digit_def)
qed

section \<open>Writes and the trace\<close>

lemma emitted_append [simp]: "emitted (xs @ ys) = emitted xs @ emitted ys"
  by (simp add: emitted_def)

lemma emitted_Nil [simp]: "emitted [] = []"
  by (simp add: emitted_def)

lemma emitted_Cons [simp]: "emitted (e # es) = accepted e @ emitted es"
  by (simp add: emitted_def)

lemma write_fd2_ok:
  "list_all answer_ok rs \<Longrightarrow>
   emitted (fst (write_fd2 rs data)) = data \<and> list_all answer_ok (snd (write_fd2 rs data))"
proof (induction rs data rule: write_fd2.induct)
  case (1 rs)
  then show ?case by simp
next
  case (2 v va)
  then show ?case by simp
next
  case (3 n rs v va)
  let ?data = "v # va"
  from "3.prems" have n: "0 < n" and rs: "list_all answer_ok rs" by simp_all
  let ?w = "min n (length ?data)"
  have w: "0 < ?w" using n by simp
  from "3.IH"[OF refl w rs]
  have ih: "emitted (fst (write_fd2 rs (drop ?w ?data))) = drop ?w ?data"
    "list_all answer_ok (snd (write_fd2 rs (drop ?w ?data)))" by simp_all
  have "take ?w ?data @ drop ?w ?data = ?data" by (rule append_take_drop_id)
  with ih w show ?case
    by (simp add: Let_def split_beta del: append_take_drop_id take_Suc_Cons drop_Suc_Cons)
next
  case (4 rs v va)
  then show ?case by (simp add: split_beta)
next
  case (5 rs v va)
  then show ?case by simp
qed

lemma write_fd2_offers:
  "data \<noteq> [] \<Longrightarrow> \<exists>r evs. fst (write_fd2 rs data) = Write2 data r # evs"
  by (cases "(rs, data)" rule: write_fd2.cases) (auto simp: Let_def split_beta)


lemma config_fields:
  assumes "config s' = config s"
  shows "g_log_enabled s' = g_log_enabled s" "g_prefix_buf s' = g_prefix_buf s"
    "g_prefix_len s' = g_prefix_len s" "g_min_level s' = g_min_level s"
    "g_min_level_set_explicitly s' = g_min_level_set_explicitly s"
    "g_modules s' = g_modules s" "g_modules_set_explicitly s' = g_modules_set_explicitly s"
    "g_thread_safe s' = g_thread_safe s" "g_sink s' = g_sink s"
    "g_timestamps_enabled s' = g_timestamps_enabled s"
    "g_source_location_enabled s' = g_source_location_enabled s"
    "g_init_once s' = g_init_once s"
proof -
  have f: "f (config s') = f (config s)" for f :: "logger \<Rightarrow> 'b"
    using assms by simp
  show "g_log_enabled s' = g_log_enabled s" using f[of g_log_enabled] by (simp add: config_def)
  show "g_prefix_buf s' = g_prefix_buf s" using f[of g_prefix_buf] by (simp add: config_def)
  show "g_prefix_len s' = g_prefix_len s" using f[of g_prefix_len] by (simp add: config_def)
  show "g_min_level s' = g_min_level s" using f[of g_min_level] by (simp add: config_def)
  show "g_min_level_set_explicitly s' = g_min_level_set_explicitly s"
    using f[of g_min_level_set_explicitly] by (simp add: config_def)
  show "g_modules s' = g_modules s" using f[of g_modules] by (simp add: config_def)
  show "g_modules_set_explicitly s' = g_modules_set_explicitly s"
    using f[of g_modules_set_explicitly] by (simp add: config_def)
  show "g_thread_safe s' = g_thread_safe s" using f[of g_thread_safe] by (simp add: config_def)
  show "g_sink s' = g_sink s" using f[of g_sink] by (simp add: config_def)
  show "g_timestamps_enabled s' = g_timestamps_enabled s"
    using f[of g_timestamps_enabled] by (simp add: config_def)
  show "g_source_location_enabled s' = g_source_location_enabled s"
    using f[of g_source_location_enabled] by (simp add: config_def)
  show "g_init_once s' = g_init_once s" using f[of g_init_once] by (simp add: config_def)
qed

lemma write_raw_config [simp]: "config (write_raw d s) = config s"
  by (simp add: write_raw_def config_def split_beta split: option.splits)

lemma write_raw_caches [simp]:
  "color_cached (write_raw d s) = color_cached s" "pid_cached (write_raw d s) = pid_cached s"
  by (simp_all add: write_raw_def split_beta split: option.splits)

lemma write_raw_Nil [simp]: "write_raw [] s = s"
  by (simp add: write_raw_def)

lemma write_raw_Some:
  "g_sink s = Some f \<Longrightarrow> d \<noteq> [] \<Longrightarrow> write_raw d s = s\<lparr>trace := trace s @ [SinkCall f d]\<rparr>"
  by (simp add: write_raw_def)

lemma write_raw_None:
  "g_sink s = None \<Longrightarrow> d \<noteq> [] \<Longrightarrow>
   write_raw d s = s\<lparr>fd2_answers := snd (write_fd2 (fd2_answers s) d),
                      trace := trace s @ fst (write_fd2 (fd2_answers s) d)\<rparr>"
  by (simp add: write_raw_def split_beta)

lemma write_raw_trace:
  "\<exists>evs. trace (write_raw d s) = trace s @ evs \<and>
         (sink_ok s \<longrightarrow> sink_ok (write_raw d s) \<and> emitted evs = d)"
proof (cases "d = []")
  case True
  then show ?thesis by simp
next
  case False
  show ?thesis
  proof (cases "g_sink s")
    case None
    let ?r = "write_fd2 (fd2_answers s) d"
    note w = write_raw_None[OF None False]
    have t: "trace (write_raw d s) = trace s @ fst ?r" by (simp add: w)
    have a: "fd2_answers (write_raw d s) = snd ?r" by (simp add: w)
    have g: "g_sink (write_raw d s) = None" by (simp add: w None)
    have "sink_ok s \<longrightarrow> sink_ok (write_raw d s) \<and> emitted (fst ?r) = d"
    proof
      assume "sink_ok s"
      then have "list_all answer_ok (fd2_answers s)" using None by (simp add: sink_ok_def)
      from write_fd2_ok[OF this, of d] show "sink_ok (write_raw d s) \<and> emitted (fst ?r) = d"
        by (simp add: sink_ok_def g a)
    qed
    with t show ?thesis by blast
  next
    case (Some f)
    note w = write_raw_Some[OF Some False]
    have "trace (write_raw d s) = trace s @ [SinkCall f d]" by (simp add: w)
    moreover have "sink_ok (write_raw d s)" by (simp add: w sink_ok_def Some)
    moreover have "emitted [SinkCall f d] = d" by simp
    ultimately show ?thesis by blast
  qed
qed

lemma color_on_cong:
  "color_cached s' = color_cached s \<Longrightarrow> color_on env s' = color_on env s"
  by (simp add: color_on_def use_color_def)

lemma current_pid_cong:
  "pid_cached s' = pid_cached s \<Longrightarrow> current_pid env s' = current_pid env s"
  by (simp add: current_pid_def pid_def)

lemma emits_refl: "emits env s [] s"
  by (simp add: emits_def)

lemma emits_trans:
  assumes "emits env s o1 s1" "emits env s1 o2 s2"
  shows "emits env s (o1 @ o2) s2"
proof -
  from assms(1) obtain e1 where e1: "trace s1 = trace s @ e1"
    "sink_ok s \<longrightarrow> sink_ok s1 \<and> emitted e1 = o1" by (auto simp: emits_def)
  from assms(2) obtain e2 where e2: "trace s2 = trace s1 @ e2"
    "sink_ok s1 \<longrightarrow> sink_ok s2 \<and> emitted e2 = o2" by (auto simp: emits_def)
  have "trace s2 = trace s @ (e1 @ e2)" using e1 e2 by simp
  moreover have "sink_ok s \<longrightarrow> sink_ok s2 \<and> emitted (e1 @ e2) = o1 @ o2"
    using e1 e2 by simp
  ultimately have "\<exists>evs. trace s2 = trace s @ evs \<and> (sink_ok s \<longrightarrow> sink_ok s2 \<and> emitted evs = o1 @ o2)"
    by blast
  with assms show ?thesis by (simp add: emits_def)
qed

lemma write_raw_color_on [simp]: "color_on env (write_raw d s) = color_on env s"
  by (rule color_on_cong) simp

lemma write_raw_current_pid [simp]: "current_pid env (write_raw d s) = current_pid env s"
  by (rule current_pid_cong) simp

lemma emits_write_raw0: "emits env s d (write_raw d s)"
  using write_raw_trace[of d s] by (simp add: emits_def)

lemma emits_write_str0: "emits env s v (write_str v s)"
  by (simp add: write_str_def emits_write_raw0 emits_refl)

lemma emits_write_dec0: "emits env s (dec_buf v) (write_dec v s)"
  by (simp add: write_dec_def emits_write_raw0)

lemma sink_ok_cong:
  "g_sink s' = g_sink s \<Longrightarrow> fd2_answers s' = fd2_answers s \<Longrightarrow> sink_ok s' = sink_ok s"
  by (simp add: sink_ok_def cong: option.case_cong)

lemma emits_silent:
  assumes "config s' = config s" "color_on env s' = color_on env s"
    "current_pid env s' = current_pid env s" "trace s' = trace s"
    "fd2_answers s' = fd2_answers s"
  shows "emits env s [] s'"
proof -
  have "sink_ok s' = sink_ok s"
    using config_fields(9)[OF assms(1)] assms(5) by (rule sink_ok_cong)
  then show ?thesis using assms by (simp add: emits_def)
qed

lemma use_color_snd:
  "snd (use_color env s) = s \<or>
   snd (use_color env s) = s\<lparr>color_cached := (if NO_COLOR env = None \<and> isatty2 env then 1 else 0)\<rparr>"
  by (simp add: use_color_def)

lemma use_color_fst: "fst (use_color env s) = color_on env s"
  by (simp add: color_on_def use_color_def)

lemma color_on_settled: "color_on env (snd (use_color env s)) = color_on env s"
  by (simp add: color_on_def use_color_def)

lemma emits_use_color: "emits env s [] (snd (use_color env s))"
proof (rule emits_silent)
  show "config (snd (use_color env s)) = config s"
    using use_color_snd[of env s] by (auto simp: config_def)
  show "color_on env (snd (use_color env s)) = color_on env s" by (rule color_on_settled)
  show "current_pid env (snd (use_color env s)) = current_pid env s"
    using use_color_snd[of env s] by (auto simp: current_pid_def pid_def)
  show "trace (snd (use_color env s)) = trace s"
    using use_color_snd[of env s] by auto
  show "fd2_answers (snd (use_color env s)) = fd2_answers s"
    using use_color_snd[of env s] by auto
qed

lemma fst_color: "fst (color env c s) = color_str env s c"
  by (simp add: color_def color_str_def use_color_fst split_beta)

lemma snd_color: "snd (color env c s) = snd (use_color env s)"
  by (simp add: color_def split_beta)

lemma emits_write_color0: "emits env s (color_str env s c) (write_color env c s)"
proof -
  have "write_color env c s = write_str (color_str env s c) (snd (use_color env s))"
    by (simp add: write_color_def split_beta fst_color snd_color)
  moreover have "emits env s ([] @ color_str env s c) (write_str (color_str env s c) (snd (use_color env s)))"
    by (rule emits_trans[OF emits_use_color emits_write_str0])
  ultimately show ?thesis by simp
qed

lemma emits_write_level_color0:
  "emits env s (color_str env s (level_color_of lvl)) (write_level_color env lvl s)"
proof -
  have "level_color env lvl s = color env (level_color_of lvl) s" by (cases lvl) simp_all
  then have "write_level_color env lvl s = write_color env (level_color_of lvl) s"
    by (simp add: write_level_color_def write_color_def)
  then show ?thesis by (simp add: emits_write_color0)
qed

lemma pid_snd: "snd (pid env s) = s \<or> snd (pid env s) = s\<lparr>pid_cached := getpid env\<rparr>"
  by (simp add: pid_def)

lemma pid_fst: "fst (pid env s) = current_pid env s"
  by (simp add: current_pid_def pid_def)

lemma pid_stored: "pid_cached (snd (pid env s)) = current_pid env s"
  by (simp add: current_pid_def pid_def)

lemma current_pid_settled: "current_pid env (snd (pid env s)) = current_pid env s"
  by (simp add: current_pid_def pid_def)

lemma emits_pid: "emits env s [] (snd (pid env s))"
proof (rule emits_silent)
  show "config (snd (pid env s)) = config s"
    using pid_snd[of env s] by (auto simp: config_def)
  show "color_on env (snd (pid env s)) = color_on env s"
    using pid_snd[of env s] by (auto simp: color_on_def use_color_def)
  show "current_pid env (snd (pid env s)) = current_pid env s" by (rule current_pid_settled)
  show "trace (snd (pid env s)) = trace s"
    using pid_snd[of env s] by auto
  show "fd2_answers (snd (pid env s)) = fd2_answers s"
    using pid_snd[of env s] by auto
qed

lemma emits_write_pid0:
  "emits env s (dec_buf (of_int (current_pid env s))) (write_pid env s)"
proof -
  have "write_pid env s = write_dec (of_int (current_pid env s)) (snd (pid env s))"
    by (simp add: write_pid_def split_beta pid_fst)
  moreover have "emits env s ([] @ dec_buf (of_int (current_pid env s)))
      (write_dec (of_int (current_pid env s)) (snd (pid env s)))"
    by (rule emits_trans[OF emits_pid emits_write_dec0])
  ultimately show ?thesis by simp
qed

lemma emits_color_str: "emits env s out s1 \<Longrightarrow> color_str env s1 c = color_str env s c"
  by (simp add: emits_def color_str_def)

lemma emits_current_pid: "emits env s out s1 \<Longrightarrow> current_pid env s1 = current_pid env s"
  by (simp add: emits_def)

lemma emits_config: "emits env s out s1 \<Longrightarrow> config s1 = config s"
  by (simp add: emits_def)

lemma emits_write_raw: "emits env s out s1 \<Longrightarrow> emits env s (out @ d) (write_raw d s1)"
  by (erule emits_trans) (rule emits_write_raw0)

lemma emits_write_str: "emits env s out s1 \<Longrightarrow> emits env s (out @ v) (write_str v s1)"
  by (erule emits_trans) (rule emits_write_str0)

lemma emits_write_dec: "emits env s out s1 \<Longrightarrow> emits env s (out @ dec_buf v) (write_dec v s1)"
  by (erule emits_trans) (rule emits_write_dec0)

lemma emits_write_color:
  assumes "emits env s out s1"
  shows "emits env s (out @ color_str env s c) (write_color env c s1)"
proof -
  have "emits env s (out @ color_str env s1 c) (write_color env c s1)"
    using assms emits_write_color0 by (rule emits_trans)
  then show ?thesis by (simp only: emits_color_str[OF assms])
qed

lemma emits_write_level_color:
  assumes "emits env s out s1"
  shows "emits env s (out @ color_str env s (level_color_of lvl)) (write_level_color env lvl s1)"
proof -
  have "emits env s (out @ color_str env s1 (level_color_of lvl)) (write_level_color env lvl s1)"
    using assms emits_write_level_color0 by (rule emits_trans)
  then show ?thesis by (simp only: emits_color_str[OF assms])
qed

lemma emits_write_pid:
  assumes "emits env s out s1"
  shows "emits env s (out @ dec_buf (of_int (current_pid env s))) (write_pid env s1)"
proof -
  have "emits env s (out @ dec_buf (of_int (current_pid env s1))) (write_pid env s1)"
    using assms emits_write_pid0 by (rule emits_trans)
  then show ?thesis by (simp only: emits_current_pid[OF assms])
qed


lemma emits_eq: "emits env s out s' \<Longrightarrow> out = out' \<Longrightarrow> emits env s out' s'"
  by simp

lemmas emits_steps =
  emits_write_raw emits_write_str emits_write_dec emits_write_color
  emits_write_level_color emits_write_pid

lemma write_log_line_decomp:
  "\<exists>s'. write_log_line env clk lvl m msg sloc s = write_raw msg s' \<and>
        emits env s (line_head env clk lvl m sloc s) s'"
proof -
  define p where "p = take (snapshot_len (read_prefix_snapshot s)) (snapshot_value (read_prefix_snapshot s))"
  define W where "W = (if g_timestamps_enabled s then write_raw (write_timestamp_to clk) s else s)"
  define Z where "Z =
    write_color env Reset (write_raw '']'' (write_str (level_label lvl) (write_raw ''[''
      (write_level_color env lvl (write_color env Reset (write_raw '' '' (write_raw p
        (write_color env Italic (write_color env Gray (write_raw '' '' (write_color env Reset
          (write_raw ''|'' (write_pid env (write_raw ''|'' (write_color env Dim W)))))))))))))))"
  define Y where "Y = (if g_source_location_enabled Z then
      write_color env Reset (write_dec (ucast (line sloc)) (write_raw '':''
        (write_raw (basename_of (file_name sloc)) (write_color env Dim (write_raw '' '' Z)))))
    else Z)"
  define X where "X = (if m \<noteq> [] then
      write_color env Reset (write_raw '')'' (write_raw m (write_raw ''(''
        (write_color env Dim (write_raw '' '' Y)))))
    else Y)"
  have eq: "write_log_line env clk lvl m msg sloc s = write_raw msg (write_raw '' '' X)"
    by (simp add: write_log_line_def Let_def X_def Y_def Z_def W_def p_def)
  have eW: "emits env s (if g_timestamps_enabled s then write_timestamp_to clk else []) W"
    by (simp add: W_def emits_write_raw0 emits_refl)
  have eZ: "emits env s
     ((if g_timestamps_enabled s then write_timestamp_to clk else []) @
      color_str env s Dim @ ''|'' @ dec_buf (of_int (current_pid env s)) @ ''|'' @
      color_str env s Reset @ '' '' @ color_str env s Gray @ color_str env s Italic @
      p @ '' '' @ color_str env s Reset @
      color_str env s (level_color_of lvl) @ ''['' @ level_label lvl @ '']'' @
      color_str env s Reset) Z"
    unfolding Z_def by (rule emits_eq, (rule emits_steps)+, rule eW, simp)
  have loc_flag: "g_source_location_enabled Z = g_source_location_enabled s"
    by (rule config_fields(11)[OF emits_config [OF eZ] ])
  have eY: "emits env s
     (((if g_timestamps_enabled s then write_timestamp_to clk else []) @
      color_str env s Dim @ ''|'' @ dec_buf (of_int (current_pid env s)) @ ''|'' @
      color_str env s Reset @ '' '' @ color_str env s Gray @ color_str env s Italic @
      p @ '' '' @ color_str env s Reset @
      color_str env s (level_color_of lvl) @ ''['' @ level_label lvl @ '']'' @
      color_str env s Reset) @
      (if g_source_location_enabled s then
        '' '' @ color_str env s Dim @ basename_of (file_name sloc) @ '':'' @
        dec_buf (ucast (line sloc)) @ color_str env s Reset
      else [])) Y"
  proof (cases "g_source_location_enabled s")
    case True
    then have "Y = write_color env Reset (write_dec (ucast (line sloc)) (write_raw '':''
        (write_raw (basename_of (file_name sloc)) (write_color env Dim (write_raw '' '' Z)))))"
      by (simp add: Y_def loc_flag)
    then show ?thesis using True
      by (simp only: if_True) (rule emits_eq, (rule emits_steps)+, rule eZ, simp)
  next
    case False
    then have "Y = Z" by (simp add: Y_def loc_flag)
    then show ?thesis using False eZ by simp
  qed
  have eX: "emits env s
     ((((if g_timestamps_enabled s then write_timestamp_to clk else []) @
      color_str env s Dim @ ''|'' @ dec_buf (of_int (current_pid env s)) @ ''|'' @
      color_str env s Reset @ '' '' @ color_str env s Gray @ color_str env s Italic @
      p @ '' '' @ color_str env s Reset @
      color_str env s (level_color_of lvl) @ ''['' @ level_label lvl @ '']'' @
      color_str env s Reset) @
      (if g_source_location_enabled s then
        '' '' @ color_str env s Dim @ basename_of (file_name sloc) @ '':'' @
        dec_buf (ucast (line sloc)) @ color_str env s Reset
      else [])) @
      (if m \<noteq> [] then
        '' '' @ color_str env s Dim @ ''('' @ m @ '')'' @ color_str env s Reset
      else [])) X"
  proof (cases "m = []")
    case True
    then show ?thesis using eY by (simp add: X_def)
  next
    case False
    then have "X = write_color env Reset (write_raw '')'' (write_raw m (write_raw ''(''
        (write_color env Dim (write_raw '' '' Y)))))"
      by (simp add: X_def)
    then show ?thesis using False
      by (simp only: if_True not_False_eq_True) (rule emits_eq, (rule emits_steps)+, rule eY, simp)
  qed
  have "emits env s (line_head env clk lvl m sloc s) (write_raw '' '' X)"
    by (rule emits_eq, rule emits_write_raw, rule eX) (simp add: line_head_def p_def)
  with eq show ?thesis by blast
qed


section \<open>The pieces of a line against the format\<close>

lemma color_str_off [simp]: "\<not> color_on env s \<Longrightarrow> color_str env s c = []"
  by (simp add: color_str_def)

lemma basename_loop_eq:
  "basename_loop p lastp = (if CHR ''/'' \<in> set p then spec_basename p else lastp)"
proof (induction p arbitrary: lastp)
  case Nil
  then show ?case by simp
next
  case (Cons c p)
  show ?case
  proof (cases "CHR ''/'' \<in> set p")
    case True
    then have "takeWhile (\<lambda>c. c \<noteq> CHR ''/'') (rev p @ [c]) = takeWhile (\<lambda>c. c \<noteq> CHR ''/'') (rev p)"
      by (intro takeWhile_append1[of "CHR ''/''"]) simp_all
    then have "spec_basename (c # p) = spec_basename p" by (simp add: spec_basename_def)
    with True Cons.IH show ?thesis by simp
  next
    case False
    then have tw: "takeWhile (\<lambda>c. c \<noteq> CHR ''/'') (rev p @ [c]) =
        rev p @ takeWhile (\<lambda>c. c \<noteq> CHR ''/'') [c]"
      by (intro takeWhile_append2) auto
    show ?thesis
    proof (cases "c = CHR ''/''")
      case True
      with tw have "spec_basename (c # p) = p" by (simp add: spec_basename_def)
      with True False Cons.IH show ?thesis by simp
    next
      case c: False
      with False Cons.IH show ?thesis by simp
    qed
  qed
qed

lemma spec_basename_no_slash: "CHR ''/'' \<notin> set p \<Longrightarrow> spec_basename p = p"
proof -
  assume "CHR ''/'' \<notin> set p"
  then have tw: "takeWhile (\<lambda>c. c \<noteq> CHR ''/'') (rev p) = rev p"
    by (intro takeWhile_eq_all_conv[THEN iffD2]) auto
  show ?thesis unfolding spec_basename_def tw by simp
qed

lemma basename_of_eq: "basename_of (file_name sloc) = spec_file_field sloc"
  by (simp add: basename_of_def spec_file_field_def basename_loop_eq spec_basename_no_slash
      split: option.splits)

lemma dec_buf_pid: "0 \<le> p \<Longrightarrow> p < 2 ^ 64 \<Longrightarrow> dec_buf (of_int p) = spec_decimal (nat p)"
proof -
  assume p: "0 \<le> p" "p < 2 ^ 64"
  have "unat (of_int p :: 64 word) = nat (p mod 2 ^ 64)"
    by (simp add: unat_eq_nat_uint uint_word_of_int take_bit_eq_mod)
  also have "p mod 2 ^ 64 = p" using p by simp
  finally show ?thesis by (simp add: dec_buf_eq)
qed

lemma dec_buf_line: "dec_buf (ucast (l :: 32 word)) = spec_decimal (unat l)"
proof -
  have "unat l < 2 ^ 32" using unsigned_less[of l, where 'a=nat] by simp
  then have "unat l mod 2 ^ 64 = unat l" by simp
  then have "unat (ucast l :: 64 word) = unat l"
    by (simp add: unsigned_ucast_eq take_bit_eq_mod)
  then show ?thesis by (simp add: dec_buf_eq)
qed

lemma snapshot_prefix:
  "wf_logger s \<Longrightarrow>
   take (snapshot_len (read_prefix_snapshot s)) (snapshot_value (read_prefix_snapshot s)) =
   stored_prefix s"
  by (simp add: wf_logger_def read_prefix_snapshot_def memcpy_def stored_prefix_def Let_def)

lemma sdiv_nonneg: "0 \<le> (a::int) \<Longrightarrow> 0 < b \<Longrightarrow> a sdiv b = a div b"
  by (simp add: signed_divide_int_def sgn_if)

lemma smod_nonneg: "0 \<le> (a::int) \<Longrightarrow> 0 < b \<Longrightarrow> a smod b = a mod b"
  by (simp add: smod_mod_positive)

lemma chr0_digit: "d < 10 \<Longrightarrow> chr0 (int d) = digit_char d"
proof -
  have "list_all (\<lambda>d. chr0 (int d) = digit_char d) [0..<10]" by code_simp
  then show "d < 10 \<Longrightarrow> chr0 (int d) = digit_char d"
    by (simp add: list_all_iff)
qed

lemma chr0_div_mod:
  assumes "0 \<le> x" "0 < a"
  shows "chr0 ((x sdiv a) smod 10) = digit_char ((nat x div nat a) mod 10)"
proof -
  have "(x sdiv a) smod 10 = (x div a) mod 10"
    using assms by (simp add: sdiv_nonneg smod_nonneg pos_imp_zdiv_nonneg_iff)
  also have "\<dots> = int ((nat x div nat a) mod 10)"
    using assms by (simp add: zmod_int zdiv_int)
  finally show ?thesis by (simp add: chr0_digit)
qed

lemma chr0_mod:
  assumes "0 \<le> x"
  shows "chr0 (x smod 10) = digit_char (nat x mod 10)"
  using chr0_div_mod[OF assms, of 1] by simp

lemma chr0_div:
  assumes "0 \<le> x" "0 < a" "x < 10 * a"
  shows "chr0 (x sdiv a) = digit_char (nat x div nat a)"
proof -
  have e: "x sdiv a = int (nat x div nat a)"
    using assms by (simp add: sdiv_nonneg zdiv_int)
  have "nat x < 10 * nat a" using assms by (simp add: nat_less_iff nat_mult_distrib)
  then have "nat x div nat a < 10" by (rule less_mult_imp_div_less)
  then show ?thesis unfolding e by (rule chr0_digit)
qed

lemma spec_padded_1: "n < 10 \<Longrightarrow> spec_padded 1 n = [digit_char n]"
  by (simp add: spec_padded_def spec_decimal.simps[of n])

lemma spec_padded_Suc:
  assumes "n < 10 ^ Suc k" "0 < k"
  shows "spec_padded (Suc k) n = spec_padded k (n div 10) @ [digit_char (n mod 10)]"
proof (cases "n < 10")
  case True
  then have "spec_decimal n = [digit_char n]" "spec_decimal (n div 10) = ''0''"
    by (simp_all add: spec_decimal.simps[of n] spec_decimal.simps[of 0] digit_char_def)
  moreover have "replicate (k - 1) CHR ''0'' @ ''0'' = replicate k CHR ''0''"
    using assms(2) by (cases k) (simp_all add: replicate_append_same)
  ultimately show ?thesis using True by (simp add: spec_padded_def)
next
  case False
  then have sd: "spec_decimal n = spec_decimal (n div 10) @ [digit_char (n mod 10)]"
    by (subst spec_decimal.simps) simp
  show ?thesis by (simp add: spec_padded_def sd)
qed

lemma spec_padded_2:
  "n < 100 \<Longrightarrow> spec_padded 2 n = [digit_char (n div 10), digit_char (n mod 10)]"
  using spec_padded_Suc[of n 1] spec_padded_1[of "n div 10"]
  by (simp add: numeral_2_eq_2)

lemma spec_padded_3:
  "n < 1000 \<Longrightarrow> spec_padded 3 n =
     [digit_char (n div 100), digit_char (n div 10 mod 10), digit_char (n mod 10)]"
  using spec_padded_Suc[of n 2] spec_padded_2[of "n div 10"]
  by (simp add: numeral_3_eq_3 div_mult2_eq[symmetric])

lemma spec_padded_4:
  "n < 10000 \<Longrightarrow> spec_padded 4 n =
     [digit_char (n div 1000), digit_char (n div 100 mod 10), digit_char (n div 10 mod 10),
      digit_char (n mod 10)]"
  using spec_padded_Suc[of n 3] spec_padded_3[of "n div 10"]
  by (simp add: div_mult2_eq[symmetric])


lemma write_timestamp_to_eq:
  assumes "calendar clk"
  shows "write_timestamp_to clk = spec_timestamp clk @ '' ''"
proof -
  let ?y = "tm_year clk + 1900"
  let ?mo = "tm_mon clk + 1"
  let ?ms = "tv_nsec clk sdiv 1000000"
  from assms have r: "0 \<le> ?y" "?y \<le> 9999" "0 \<le> ?mo" "?mo \<le> 12"
    "0 \<le> tm_mday clk" "tm_mday clk \<le> 31" "0 \<le> tm_hour clk" "tm_hour clk \<le> 23"
    "0 \<le> tm_min clk" "tm_min clk \<le> 59" "0 \<le> tm_sec clk" "tm_sec clk \<le> 60"
    "0 \<le> tv_nsec clk" "tv_nsec clk < 1000000000"
    by (simp_all add: calendar_def)
  have ms: "?ms = tv_nsec clk div 1000000" using r by (simp add: sdiv_nonneg)
  have ms0: "0 \<le> ?ms" using r by (simp add: ms pos_imp_zdiv_nonneg_iff)
  have ms1: "?ms < 1000" using r by (simp add: ms)
  have msn: "nat ?ms = nat (tv_nsec clk) div 1000000"
    using r by (simp add: ms nat_div_distrib)
  have year: "[chr0 (?y sdiv 1000), chr0 ((?y sdiv 100) smod 10), chr0 ((?y sdiv 10) smod 10),
      chr0 (?y smod 10)] = spec_padded 4 (nat ?y)"
    using r chr0_div[of ?y 1000] chr0_div_mod[of ?y 100] chr0_div_mod[of ?y 10] chr0_mod[of ?y]
    by (simp add: spec_padded_4)
  have two: "[chr0 (x sdiv 10), chr0 (x smod 10)] = spec_padded 2 (nat x)"
    if "0 \<le> x" "x \<le> 99" for x
    using that chr0_div[of x 10] chr0_mod[of x] by (simp add: spec_padded_2)
  have mo: "[chr0 (?mo sdiv 10), chr0 (?mo smod 10)] = spec_padded 2 (nat ?mo)"
    using r by (intro two) simp_all
  have md: "[chr0 (tm_mday clk sdiv 10), chr0 (tm_mday clk smod 10)] = spec_padded 2 (nat (tm_mday clk))"
    using r by (intro two) simp_all
  have hr: "[chr0 (tm_hour clk sdiv 10), chr0 (tm_hour clk smod 10)] = spec_padded 2 (nat (tm_hour clk))"
    using r by (intro two) simp_all
  have mi: "[chr0 (tm_min clk sdiv 10), chr0 (tm_min clk smod 10)] = spec_padded 2 (nat (tm_min clk))"
    using r by (intro two) simp_all
  have se: "[chr0 (tm_sec clk sdiv 10), chr0 (tm_sec clk smod 10)] = spec_padded 2 (nat (tm_sec clk))"
    using r by (intro two) simp_all
  have millis: "[chr0 (?ms sdiv 100), chr0 ((?ms sdiv 10) smod 10), chr0 (?ms smod 10)] =
      spec_padded 3 (nat (tv_nsec clk) div 1000000)"
    using ms0 ms1 chr0_div[of ?ms 100] chr0_div_mod[of ?ms 10] chr0_mod[of ?ms]
    by (simp add: spec_padded_3 msn[symmetric])
  have "write_timestamp_to clk =
      ''['' @ [chr0 (?y sdiv 1000), chr0 ((?y sdiv 100) smod 10), chr0 ((?y sdiv 10) smod 10),
        chr0 (?y smod 10)] @ ''-'' @
      [chr0 (?mo sdiv 10), chr0 (?mo smod 10)] @ ''-'' @
      [chr0 (tm_mday clk sdiv 10), chr0 (tm_mday clk smod 10)] @ ''T'' @
      [chr0 (tm_hour clk sdiv 10), chr0 (tm_hour clk smod 10)] @ '':'' @
      [chr0 (tm_min clk sdiv 10), chr0 (tm_min clk smod 10)] @ '':'' @
      [chr0 (tm_sec clk sdiv 10), chr0 (tm_sec clk smod 10)] @ ''.'' @
      [chr0 (?ms sdiv 100), chr0 ((?ms sdiv 10) smod 10), chr0 (?ms smod 10)] @ '']'' @ '' ''"
    by (simp add: write_timestamp_to_def Let_def)
  also have "\<dots> = spec_timestamp clk @ '' ''"
    unfolding year millis mo md hr mi se by (simp add: spec_timestamp_def)
  finally show ?thesis .
qed

lemma write_log_line_emitted:
  assumes "sink_ok s"
  shows "emitted (trace (write_log_line env clk lvl m msg sloc s)) =
           emitted (trace s) @ line_head env clk lvl m sloc s @ msg \<and>
         sink_ok (write_log_line env clk lvl m msg sloc s)"
proof -
  from write_log_line_decomp[of env clk lvl m msg sloc s] obtain s' where
    eq: "write_log_line env clk lvl m msg sloc s = write_raw msg s'" and
    e: "emits env s (line_head env clk lvl m sloc s) s'" by blast
  have "emits env s (line_head env clk lvl m sloc s @ msg) (write_raw msg s')"
    using e by (rule emits_write_raw)
  with assms eq show ?thesis by (auto simp: emits_def)
qed

lemma write_log_line_config: "config (write_log_line env clk lvl m msg sloc s) = config s"
proof -
  from write_log_line_decomp[of env clk lvl m msg sloc s] obtain s' where
    eq: "write_log_line env clk lvl m msg sloc s = write_raw msg s'" and
    e: "emits env s (line_head env clk lvl m sloc s) s'" by blast
  show ?thesis using emits_config[OF e] by (simp add: eq)
qed

text \<open>Only \<open>pid\<close> touches its cache, and \<open>write_log_line\<close> leaves the process id in it.\<close>

lemma write_str_pid_cached: "pid_cached (write_str d s) = pid_cached s"
  by (simp add: write_str_def)

lemma write_dec_pid_cached: "pid_cached (write_dec v s) = pid_cached s"
  by (simp add: write_dec_def)

lemma write_color_pid_cached: "pid_cached (write_color env c s) = pid_cached s"
  using use_color_snd[of env s]
  by (auto simp: write_color_def split_beta snd_color write_str_pid_cached)

lemma write_level_color_pid_cached: "pid_cached (write_level_color env lvl s) = pid_cached s"
  using use_color_snd[of env s]
  by (cases lvl) (auto simp: write_level_color_def split_beta snd_color write_str_pid_cached)

lemma write_pid_pid_cached: "pid_cached (write_pid env s) = current_pid env s"
  by (simp add: write_pid_def split_beta pid_stored write_dec_pid_cached)

lemma write_log_line_pid_cached:
  "pid_cached (write_log_line env clk lvl m msg sloc s) = current_pid env s"
  by (simp add: write_log_line_def Let_def current_pid_def write_str_pid_cached
      write_dec_pid_cached write_color_pid_cached write_level_color_pid_cached
      write_pid_pid_cached)

lemma write_log_line_color_on:
  "color_on env (write_log_line env clk lvl m msg sloc s) = color_on env s"
proof -
  from write_log_line_decomp[of env clk lvl m msg sloc s] obtain s' where
    eq: "write_log_line env clk lvl m msg sloc s = write_raw msg s'" and
    e: "emits env s (line_head env clk lvl m sloc s) s'" by blast
  show ?thesis using e by (simp add: eq emits_def)
qed

lemma write_raw_offers:
  "d \<noteq> [] \<Longrightarrow> \<exists>evs. trace (write_raw d s) = trace s @ evs \<and> list_ex (offers (g_sink s) d) evs"
proof (cases "g_sink s")
  case None
  assume d: "d \<noteq> []"
  from write_fd2_offers[OF d, of "fd2_answers s"] obtain r evs where
    "fst (write_fd2 (fd2_answers s) d) = Write2 d r # evs" by blast
  then show ?thesis using None by (simp add: write_raw_None[OF None d])
next
  case (Some f)
  assume d: "d \<noteq> []"
  show ?thesis using Some by (simp add: write_raw_Some[OF Some d])
qed

lemma write_log_line_offers:
  assumes "msg \<noteq> []"
  shows "\<exists>evs. trace (write_log_line env clk lvl m msg sloc s) = trace s @ evs \<and>
           list_ex (offers (g_sink s) msg) evs"
proof -
  from write_log_line_decomp[of env clk lvl m msg sloc s] obtain s' where
    eq: "write_log_line env clk lvl m msg sloc s = write_raw msg s'" and
    e: "emits env s (line_head env clk lvl m sloc s) s'" by blast
  from e obtain e1 where e1: "trace s' = trace s @ e1" by (auto simp: emits_def)
  have g: "g_sink s' = g_sink s" by (rule config_fields(9)[OF emits_config [OF e] ])
  from write_raw_offers[OF assms, of s'] obtain e2 where
    e2: "trace (write_raw msg s') = trace s' @ e2" "list_ex (offers (g_sink s') msg) e2" by blast
  have "trace (write_log_line env clk lvl m msg sloc s) = trace s @ (e1 @ e2)"
    using eq e1 e2 by simp
  moreover have "list_ex (offers (g_sink s) msg) (e1 @ e2)" using e2 g by simp
  ultimately show ?thesis by blast
qed

lemma line_head_plain:
  assumes "wf_logger s" "\<not> color_on env s"
    "g_timestamps_enabled s \<longrightarrow> calendar clk"
    "0 \<le> current_pid env s" "current_pid env s < 2 ^ 31"
  shows "line_head env clk lvl m sloc s @ msg =
     spec_log_line (g_timestamps_enabled s) clk (nat (current_pid env s)) (stored_prefix s) lvl
       (g_source_location_enabled s) sloc m msg"
proof -
  have p: "dec_buf (of_int (current_pid env s)) = spec_decimal (nat (current_pid env s))"
    using assms(4,5) by (intro dec_buf_pid) simp_all
  have l: "level_label lvl = spec_level_name lvl" by (cases lvl) simp_all
  show ?thesis
    using assms(2,3)
    by (simp add: line_head_def spec_log_line_def p l snapshot_prefix[OF assms(1)]
        write_timestamp_to_eq basename_of_eq dec_buf_line)
qed


lemma wf_initial: "wf_logger initial_logger"
  by (simp add: wf_logger_def table_ok_def initial_logger_def MAX_MODULES_def MODULE_NAME_LEN_def
      list_all_iff)

lemma wf_sample: "wf_logger sample_logger"
  using wf_initial by (simp add: sample_logger_def set_sink_def enable_logging_def wf_logger_def)

section \<open>The line format (claim C2)\<close>

text \<open>
  Claim C2. With color output off, the bytes \<open>write_log_line\<close> delivers to the sink are
  the line of the format: the timestamp field and a space if timestamps are enabled,
  \<open>|pid|\<close> with the cached process id in decimal, a space, the stored prefix, a space,
  \<open>[INFO]\<close>, \<open>[WARN]\<close> or \<open>[ERROR]\<close> by the level of the call, then \<open>file:line\<close> after a
  space if source location is enabled (the final path segment only), then \<open>(module)\<close>
  after a space if the module tag is not empty, a space, and the message with nothing
  after it. The process id is the cached one: the id in the cache if there is one, the
  answer of \<open>getpid\<close> otherwise; the call leaves it in the cache, and once it is there a
  later call prints it whatever \<open>getpid\<close> answers then. This holds in every well-formed
  state where no output is lost (a custom sink, or a descriptor 2 that never fails), for
  calendar times of the years 0 to 9999 and a process id between 0 and \<open>2^31\<close>.
\<close>

theorem log_line_format:
  assumes "wf_logger s" and "sink_ok s" and "\<not> color_on env s"
    and "g_timestamps_enabled s \<longrightarrow> calendar clk"
    and "0 \<le> current_pid env s" and "current_pid env s < 2 ^ 31"
  shows "emitted (trace (write_log_line env clk lvl m msg sloc s)) =
           emitted (trace s) @
           spec_log_line (g_timestamps_enabled s) clk (nat (current_pid env s)) (stored_prefix s)
             lvl (g_source_location_enabled s) sloc m msg \<and>
         pid_cached (write_log_line env clk lvl m msg sloc s) = current_pid env s \<and>
         (current_pid env s \<noteq> 0 \<longrightarrow>
            current_pid env' (write_log_line env clk lvl m msg sloc s) = current_pid env s)"
proof -
  have "pid_cached (write_log_line env clk lvl m msg sloc s) = current_pid env s"
    by (rule write_log_line_pid_cached)
  then show ?thesis
    using write_log_line_emitted[OF assms(2), of env clk lvl m msg sloc]
      line_head_plain[OF assms(1,3,4,5,6), of lvl m sloc msg]
    by (simp add: current_pid_def)
qed

theorem log_line_format_witness:
  "emitted (trace (write_log_line sample_env sample_clock Warn ''alloc'' ''hello\<newline>'' sample_loc
      (set_source_location True (set_timestamps True sample_logger)))) =
     ''[2025-01-15T10:45:23.456] |4242| ==ct== [WARN] main.cpp:42 (alloc) hello\<newline>'' \<and>
   pid_cached (write_log_line sample_env sample_clock Warn ''alloc'' ''hello\<newline>'' sample_loc
      (set_source_location True (set_timestamps True sample_logger))) = 4242 \<and>
   emitted (trace (write_log_line (sample_env\<lparr>getpid := 77\<rparr>) sample_clock Error [] ''again'' sample_loc
     (write_log_line sample_env sample_clock Warn ''alloc'' ''hello\<newline>'' sample_loc
        (set_source_location True (set_timestamps True sample_logger))))) =
     ''[2025-01-15T10:45:23.456] |4242| ==ct== [WARN] main.cpp:42 (alloc) hello\<newline>'' @
     ''[2025-01-15T10:45:23.456] |4242| ==ct== [ERROR] main.cpp:42 again''"
proof -
  let ?s = "set_source_location True (set_timestamps True sample_logger)"
  let ?t = "write_log_line sample_env sample_clock Warn ''alloc'' ''hello\<newline>'' sample_loc ?s"
  let ?env = "sample_env\<lparr>getpid := 77\<rparr>"
  have wf: "wf_logger ?s"
    using wf_sample by (simp add: set_source_location_def set_timestamps_def wf_logger_def)
  have ok: "sink_ok ?s"
    by (simp add: sink_ok_def set_source_location_def set_timestamps_def sample_logger_def
        set_sink_def)
  have col: "\<not> color_on sample_env ?s"
    by (simp add: color_on_def set_source_location_def set_timestamps_def
        sample_logger_def set_sink_def enable_logging_def initial_logger_def sample_env_def)
  have cal: "g_timestamps_enabled u \<longrightarrow> calendar sample_clock" for u
    by (simp add: calendar_def sample_clock_def)
  have p: "current_pid sample_env ?s = 4242"
    by (simp add: current_pid_def set_source_location_def set_timestamps_def
        sample_logger_def set_sink_def enable_logging_def initial_logger_def sample_env_def)
  have pre: "stored_prefix ?s = ''==ct==''"
    by (simp add: stored_prefix_def set_source_location_def set_timestamps_def
        sample_logger_def set_sink_def enable_logging_def initial_logger_def)
  have tr: "trace ?s = []"
    by (simp add: set_source_location_def set_timestamps_def
        sample_logger_def set_sink_def enable_logging_def initial_logger_def)
  have fl: "g_timestamps_enabled ?s" "g_source_location_enabled ?s"
    by (simp_all add: set_source_location_def set_timestamps_def)
  have line1: "spec_log_line True sample_clock 4242 ''==ct=='' Warn True sample_loc ''alloc'' ''hello\<newline>'' =
      ''[2025-01-15T10:45:23.456] |4242| ==ct== [WARN] main.cpp:42 (alloc) hello\<newline>''"
    by (simp add: spec_log_line_def spec_timestamp_def spec_padded_def spec_decimal.simps
        digit_char_def sample_clock_def sample_loc_def spec_file_field_def spec_basename_def
        cstr_def NUL_def)
  have line2: "spec_log_line True sample_clock 4242 ''==ct=='' Error True sample_loc [] ''again'' =
      ''[2025-01-15T10:45:23.456] |4242| ==ct== [ERROR] main.cpp:42 again''"
    by (simp add: spec_log_line_def spec_timestamp_def spec_padded_def spec_decimal.simps
        digit_char_def sample_clock_def sample_loc_def spec_file_field_def spec_basename_def
        cstr_def NUL_def)
  note first = log_line_format[OF wf ok col cal[of ?s] , of Warn "''alloc''" "''hello\<newline>''" sample_loc ?env]
  have one: "emitted (trace ?t) =
      ''[2025-01-15T10:45:23.456] |4242| ==ct== [WARN] main.cpp:42 (alloc) hello\<newline>''"
    and stored: "pid_cached ?t = 4242" and later: "current_pid ?env ?t = 4242"
    using first by (simp_all add: p pre tr fl line1)
  have cfg: "config ?t = config ?s" by (rule write_log_line_config)
  have wf2: "wf_logger ?t"
    using wf config_fields(2,3,6)[OF cfg] by (simp add: wf_logger_def)
  have ok2: "sink_ok ?t" using write_log_line_emitted[OF ok] by blast
  have "color_on ?env ?t = color_on sample_env ?t" by (simp add: color_on_def)
  then have col2: "\<not> color_on ?env ?t" using col by (simp add: write_log_line_color_on)
  have pre2: "stored_prefix ?t = ''==ct==''"
    using pre config_fields(2,3)[OF cfg] by (simp add: stored_prefix_def)
  have fl2: "g_timestamps_enabled ?t" "g_source_location_enabled ?t"
    using fl config_fields(10,11)[OF cfg] by simp_all
  from log_line_format[OF wf2 ok2 col2 cal[of ?t], of Error "[]" "''again''" sample_loc ?env]
  have two: "emitted (trace (write_log_line ?env sample_clock Error [] ''again'' sample_loc ?t)) =
     ''[2025-01-15T10:45:23.456] |4242| ==ct== [WARN] main.cpp:42 (alloc) hello\<newline>'' @
     ''[2025-01-15T10:45:23.456] |4242| ==ct== [ERROR] main.cpp:42 again''"
    by (simp add: later pre2 fl2 line2 one)
  show ?thesis using one stored two by blast
qed


section \<open>The module table\<close>

lemma sv_eq_iff [simp]: "sv_eq a b = (a = b)"
  by (auto simp: sv_eq_def list_all2_eq[symmetric] dest: list_all2_lengthD)

lemma copy_fold:
  "n \<le> length name \<Longrightarrow> n \<le> length row \<Longrightarrow>
   fold (\<lambda>i r. r[i := name ! i]) [0..<n] row = take n name @ drop n row"
proof (induction n)
  case 0
  then show ?case by simp
next
  case (Suc n)
  then have ih: "fold (\<lambda>i r. r[i := name ! i]) [0..<n] row = take n name @ drop n row"
    by simp
  have "(take n name @ drop n row)[n := name ! n] = take n name @ (drop n row)[0 := name ! n]"
    using Suc.prems by (simp add: list_update_append)
  also have "(drop n row)[0 := name ! n] = name ! n # drop (Suc n) row"
    using Suc.prems by (cases "drop n row") (auto simp: drop_Suc drop_tl)
  also have "take n name @ name ! n # drop (Suc n) row = take (Suc n) name @ drop (Suc n) row"
    using Suc.prems by (simp add: take_Suc_conv_app_nth)
  finally show ?case by (simp add: ih)
qed

lemma store_cstr_eq:
  assumes "length name < length row"
  shows "store_cstr row name = name @ NUL # drop (Suc (length name)) row"
proof -
  have "fold (\<lambda>i r. r[i := name ! i]) [0..<length name] row = name @ drop (length name) row"
    using assms copy_fold[of "length name" name row] by simp
  moreover have "(name @ drop (length name) row)[length name := NUL] =
      name @ NUL # drop (Suc (length name)) row"
    using assms by (cases "drop (length name) row") (auto simp: list_update_append drop_Suc drop_tl)
  ultimately show ?thesis by (simp add: store_cstr_def)
qed

lemma store_cstr_length: "length name < length row \<Longrightarrow> length (store_cstr row name) = length row"
  by (simp add: store_cstr_eq)

lemma store_cstr_NUL: "length name < length row \<Longrightarrow> NUL \<in> set (store_cstr row name)"
  by (simp add: store_cstr_eq)

lemma cstr_store_cstr:
  "length name < length row \<Longrightarrow> cstr (store_cstr row name) = cstr name"
  by (simp add: store_cstr_eq cstr_def takeWhile_append NUL_def takeWhile_eq_all_conv[THEN iffD2])

lemma cstr_id: "NUL \<notin> set name \<Longrightarrow> cstr name = name"
  by (auto simp: cstr_def takeWhile_eq_all_conv)




lemma registered_length: "count m \<le> length (names m) \<Longrightarrow> length (registered m) = count m"
  by (simp add: registered_def)

lemma add_module_locked_cases:
  "add_module_locked name m =
     (if name \<in> set (registered m) \<or> \<not> count m < MAX_MODULES then m
      else m\<lparr>names := (names m)[count m := store_cstr (names m ! count m) name],
             count := count m + 1, filter_active := True\<rparr>)"
  by (simp add: add_module_locked_def list_ex_iff)


lemma registered_add:
  assumes "table_ok m" "length name < MODULE_NAME_LEN"
  shows "registered (add_module_locked name m) =
     (if name \<in> set (registered m) \<or> \<not> count m < MAX_MODULES then registered m
      else registered m @ [cstr name])"
proof (cases "name \<in> set (registered m) \<or> \<not> count m < MAX_MODULES")
  case True
  then show ?thesis by (simp add: add_module_locked_cases)
next
  case False
  then have c: "count m < length (names m)" using assms(1) by (simp add: table_ok_def)
  then have row: "length (names m ! count m) = MODULE_NAME_LEN"
    using assms(1) by (simp add: table_ok_def list_all_length)
  let ?r = "store_cstr (names m ! count m) name"
  have "take (Suc (count m)) ((names m)[count m := ?r]) = take (count m) (names m) @ [?r]"
    using c by (simp add: take_Suc_conv_app_nth)
  moreover have "cstr ?r = cstr name" using row assms(2) by (simp add: cstr_store_cstr)
  ultimately show ?thesis using False
    by (simp add: add_module_locked_cases registered_def)
qed

lemma table_ok_add:
  assumes "table_ok m" "length name < MODULE_NAME_LEN"
  shows "table_ok (add_module_locked name m)"
proof (cases "name \<in> set (registered m) \<or> \<not> count m < MAX_MODULES")
  case True
  then show ?thesis using assms by (simp add: add_module_locked_cases)
next
  case False
  then have c: "count m < length (names m)" using assms(1) by (simp add: table_ok_def)
  then have row: "length (names m ! count m) = MODULE_NAME_LEN"
    using assms(1) by (simp add: table_ok_def list_all_length)
  let ?r = "store_cstr (names m ! count m) name"
  have r: "length ?r = MODULE_NAME_LEN" "NUL \<in> set ?r"
    using row assms(2) by (simp_all add: store_cstr_length store_cstr_NUL)
  have t: "take (Suc (count m)) ((names m)[count m := ?r]) = take (count m) (names m) @ [?r]"
    using c by (simp add: take_Suc_conv_app_nth)
  have "list_all (\<lambda>row. length row = MODULE_NAME_LEN) ((names m)[count m := ?r])"
    using assms(1) r(1) by (auto simp: table_ok_def list_all_iff dest: set_update_subset_insert[THEN subsetD])
  then show ?thesis using assms(1) False r t
    by (simp add: add_module_locked_cases table_ok_def)
qed


declare parse_modules.simps [simp del]

lemma memcpy_row: "length src = n \<Longrightarrow> length dst = n \<Longrightarrow> memcpy dst src n = src"
  by (simp add: memcpy_def)

lemma shift_rows_nth:
  assumes "list_all (\<lambda>row. length row = MODULE_NAME_LEN) ns" "n < length ns" "i \<le> n"
  shows "length (fold (\<lambda>j ns. ns[j := memcpy (ns ! j) (ns ! (j + 1)) MODULE_NAME_LEN]) [i..<n] ns)
           = length ns \<and>
         (\<forall>k<length ns.
            fold (\<lambda>j ns. ns[j := memcpy (ns ! j) (ns ! (j + 1)) MODULE_NAME_LEN]) [i..<n] ns ! k =
              (if i \<le> k \<and> k < n then ns ! Suc k else ns ! k))"
  using assms(2,3)
proof (induction n)
  case 0
  then show ?case by simp
next
  case (Suc n)
  let ?f = "\<lambda>j ns. ns[j := memcpy (ns ! j) (ns ! (j + 1)) MODULE_NAME_LEN]"
  show ?case
  proof (cases "i = Suc n")
    case True
    then show ?thesis by auto
  next
    case False
    with Suc.prems have le: "i \<le> n" and n: "n < length ns" by simp_all
    let ?R = "fold ?f [i..<n] ns"
    from Suc.IH[OF n le] have len: "length ?R = length ns"
      and nth: "\<And>k. k < length ns \<Longrightarrow> ?R ! k = (if i \<le> k \<and> k < n then ns ! Suc k else ns ! k)"
      by simp_all
    have rn: "?R ! n = ns ! n" using nth[of n] n by simp
    have rs: "?R ! Suc n = ns ! Suc n" using nth[of "Suc n"] Suc.prems by simp
    have l32: "length (ns ! n) = MODULE_NAME_LEN" "length (ns ! Suc n) = MODULE_NAME_LEN"
      using assms(1) n Suc.prems by (simp_all add: list_all_length)
    have rs': "?R ! (n + 1) = ns ! Suc n" using rs by simp
    have "fold ?f [i..<Suc n] ns = ?f n ?R" using le by simp
    also have "\<dots> = ?R[n := ns ! Suc n]"
      by (simp only: rn rs' memcpy_row[OF l32(2) l32(1)])
    finally have step: "fold ?f [i..<Suc n] ns = ?R[n := ns ! Suc n]" .
    show ?thesis
      unfolding step using len nth le n by (auto simp: nth_list_update)
  qed
qed

lemma remove_absent:
  assumes "count m \<le> length (names m)" "name \<notin> set (registered m)"
  shows "remove_module_locked name m = m"
proof -
  have "takeWhile ((\<noteq>) name) (registered m) = registered m"
    by (rule takeWhile_eq_all_conv[THEN iffD2]) (use assms(2) in auto)
  then have "length (takeWhile ((\<noteq>) name) (registered m)) = count m"
    using registered_length[OF assms(1)] by (simp only:)
  then show ?thesis by (simp add: remove_module_locked_def Let_def)
qed

lemma remove_present:
  assumes "table_ok m"
    and i: "i = length (takeWhile ((\<noteq>) name) (registered m))"
    and "i < count m"
  shows "count (remove_module_locked name m) = count m - 1"
    and "length (names (remove_module_locked name m)) = length (names m)"
    and "filter_active (remove_module_locked name m) = (count m - 1 \<noteq> 0)"
    and "\<And>k. k < length (names m) \<Longrightarrow>
          names (remove_module_locked name m) ! k =
            (if i \<le> k \<and> k < count m - 1 then names m ! Suc k else names m ! k)"
proof -
  let ?f = "\<lambda>j ns. ns[j := memcpy (ns ! j) (ns ! (j + 1)) MODULE_NAME_LEN]"
  let ?R = "fold ?f [i..<count m - 1] (names m)"
  have r: "remove_module_locked name m =
      m\<lparr>names := ?R, count := count m - 1,
        filter_active := (if count m - 1 = 0 then False else filter_active m)\<rparr>"
    using assms(3) by (simp add: remove_module_locked_def Let_def i[symmetric])
  have rows: "list_all (\<lambda>row. length row = MODULE_NAME_LEN) (names m)"
    and c: "count m \<le> length (names m)" and fa: "filter_active m = (count m \<noteq> 0)"
    using assms(1) by (simp_all add: table_ok_def)
  have n: "count m - 1 < length (names m)" "i \<le> count m - 1" using c assms(3) by simp_all
  note s = shift_rows_nth[OF rows n]
  show "count (remove_module_locked name m) = count m - 1" by (simp add: r)
  show "length (names (remove_module_locked name m)) = length (names m)" using s by (simp add: r)
  show "filter_active (remove_module_locked name m) = (count m - 1 \<noteq> 0)"
    using fa assms(3) by (simp add: r)
  show "\<And>k. k < length (names m) \<Longrightarrow>
          names (remove_module_locked name m) ! k =
            (if i \<le> k \<and> k < count m - 1 then names m ! Suc k else names m ! k)"
    using s by (simp add: r)
qed

lemma table_ok_remove:
  assumes "table_ok m"
  shows "table_ok (remove_module_locked name m)"
proof -
  define i where "i = length (takeWhile ((\<noteq>) name) (registered m))"
  show ?thesis
  proof (cases "i < count m")
    case False
    then show ?thesis using assms by (simp add: remove_module_locked_def Let_def i_def)
  next
    case True
    note p = remove_present[OF assms i_def True]
    let ?m = "remove_module_locked name m"
    have rows: "\<And>k. k < length (names m) \<Longrightarrow> length (names m ! k) = MODULE_NAME_LEN"
      and c: "count m \<le> length (names m)" and len: "length (names m) = MAX_MODULES"
      and nul: "\<And>k. k < count m \<Longrightarrow> NUL \<in> set (names m ! k)"
      using assms by (simp_all add: table_ok_def list_all_length)
    have "list_all (\<lambda>row. length row = MODULE_NAME_LEN) (names ?m)"
      unfolding list_all_length
    proof (intro allI impI)
      fix k assume "k < length (names ?m)"
      then have k: "k < length (names m)" by (simp add: p(2))
      show "length (names ?m ! k) = MODULE_NAME_LEN"
        using k c True rows[of k] rows[of "Suc k"] by (auto simp: p(4)[OF k])
    qed
    moreover have "list_all (\<lambda>row. NUL \<in> set row) (take (count ?m) (names ?m))"
      unfolding list_all_length
    proof (intro allI impI)
      fix k assume "k < length (take (count ?m) (names ?m))"
      then have k: "k < count m - 1" by (simp add: p(1))
      then have kl: "k < length (names m)" using c by simp
      show "NUL \<in> set (take (count ?m) (names ?m) ! k)"
        using k nul[of k] nul[of "Suc k"] by (simp add: p(1) p(4)[OF kl])
    qed
    ultimately show ?thesis using len c by (simp add: table_ok_def p(1,2,3))
  qed
qed




lemma parse_modules_ok:
  "table_ok m \<Longrightarrow> table_ok (parse_modules start m)"
proof (induction start m rule: parse_modules.induct)
  case (1 start m)
  show ?case
  proof (cases "start = []")
    case True
    then show ?thesis using "1.prems" by (subst parse_modules.simps) simp
  next
    case False
    let ?tok = "takeWhile (\<lambda>c. c \<noteq> CHR '','') start"
    let ?rest = "dropWhile (\<lambda>c. c \<noteq> CHR '','') start"
    let ?m = "if length ?tok > 0 \<and> length ?tok < MODULE_NAME_LEN then add_module_locked ?tok m else m"
    have "table_ok ?m" using "1.prems" by (simp add: table_ok_add)
    from "1.IH"[OF False refl refl refl this] show ?thesis
      using False by (subst parse_modules.simps) (simp add: Let_def)
  qed
qed


lemma init_from_env_modules:
  "g_modules (init_from_env env s) =
     (if g_modules_set_explicitly s then g_modules s
      else case CT_DEBUG env of
        None \<Rightarrow> g_modules s
      | Some d \<Rightarrow> if cstr d \<noteq> [] then parse_modules (cstr d) (g_modules s) else g_modules s)"
  by (simp add: init_from_env_def Let_def split: option.splits)

lemma init_from_env_level:
  "g_min_level (init_from_env env s) =
     (if g_min_level_set_explicitly s then g_min_level s
      else case CT_LOG_LEVEL env of
        None \<Rightarrow> g_min_level s
      | Some v \<Rightarrow> if cstr_ieq (cstr v) ''warn'' then 1
                  else if cstr_ieq (cstr v) ''error'' then 2 else 0)"
  by (simp add: init_from_env_def Let_def split: option.splits)

lemma init_from_env_frame:
  "init_from_env env s =
     s\<lparr>g_min_level := g_min_level (init_from_env env s),
       g_modules := g_modules (init_from_env env s)\<rparr>"
  by (simp add: init_from_env_def Let_def split: option.splits)

lemma init_once_done [simp]: "g_init_once s \<Longrightarrow> init_once env s = s"
  by (simp add: init_once_def)

lemma init_once_sets [simp]: "g_init_once (init_once env s)"
  by (simp add: init_once_def)

lemma init_once_frame:
  "init_once env s =
     s\<lparr>g_min_level := g_min_level (init_once env s),
       g_modules := g_modules (init_once env s),
       g_init_once := True\<rparr>"
proof (cases "g_init_once s")
  case True
  then show ?thesis by simp
next
  case False
  then show ?thesis
    by (subst (1) init_once_def, subst (1) init_from_env_frame) (simp add: init_once_def)
qed

lemma init_once_fields [simp]:
  "g_log_enabled (init_once env s) = g_log_enabled s"
  "g_prefix_buf (init_once env s) = g_prefix_buf s"
  "g_prefix_len (init_once env s) = g_prefix_len s"
  "g_min_level_set_explicitly (init_once env s) = g_min_level_set_explicitly s"
  "g_modules_set_explicitly (init_once env s) = g_modules_set_explicitly s"
  "g_sink (init_once env s) = g_sink s"
  "g_timestamps_enabled (init_once env s) = g_timestamps_enabled s"
  "g_source_location_enabled (init_once env s) = g_source_location_enabled s"
  "color_cached (init_once env s) = color_cached s"
  "pid_cached (init_once env s) = pid_cached s"
  "fd2_answers (init_once env s) = fd2_answers s"
  "trace (init_once env s) = trace s"
  by (subst init_once_frame, simp)+

lemma init_once_modules_explicit:
  "g_modules_set_explicitly s \<Longrightarrow> g_modules (init_once env s) = g_modules s"
  by (simp add: init_once_def init_from_env_modules)

lemma init_once_level_explicit:
  "g_min_level_set_explicitly s \<Longrightarrow> g_min_level (init_once env s) = g_min_level s"
  by (simp add: init_once_def init_from_env_level)

lemma table_ok_init_once: "table_ok (g_modules s) \<Longrightarrow> table_ok (g_modules (init_once env s))"
  by (simp add: init_once_def init_from_env_modules parse_modules_ok split: option.splits)


lemma wf_init_once: "wf_logger s \<Longrightarrow> wf_logger (init_once env s)"
  by (simp add: wf_logger_def table_ok_init_once)


section \<open>Module operations (claims C3, C5, C6)\<close>

lemma enable_module_rejected:
  "name = [] \<or> length name \<ge> MODULE_NAME_LEN \<Longrightarrow> enable_module env name s = s"
  by (simp add: enable_module_def)

lemma enable_module_accepted:
  assumes "name \<noteq> []" "length name < MODULE_NAME_LEN"
  shows "enable_module env name s =
     (init_once env (s\<lparr>g_modules_set_explicitly := True\<rparr>))
       \<lparr>g_modules := add_module_locked name (g_modules s)\<rparr>"
  using assms by (simp add: enable_module_def Let_def init_once_modules_explicit)

lemma disable_module_accepted:
  assumes "name \<noteq> []"
  shows "disable_module env name s =
     (init_once env (s\<lparr>g_modules_set_explicitly := True\<rparr>))
       \<lparr>g_modules := remove_module_locked name (g_modules s)\<rparr>"
  using assms by (simp add: disable_module_def Let_def init_once_modules_explicit)

lemma enable_all_modules_eq:
  "enable_all_modules env s =
     (init_once env (s\<lparr>g_modules_set_explicitly := True\<rparr>))
       \<lparr>g_modules := (g_modules s)\<lparr>count := 0, filter_active := False\<rparr>\<rparr>"
  by (simp add: enable_all_modules_def Let_def init_once_modules_explicit)

lemma table_ok_clear: "table_ok m \<Longrightarrow> table_ok (m\<lparr>count := 0, filter_active := False\<rparr>)"
  by (simp add: table_ok_def)

lemma wf_enable_module: "wf_logger s \<Longrightarrow> wf_logger (enable_module env name s)"
proof (cases "name = [] \<or> length name \<ge> MODULE_NAME_LEN")
  case True
  then show "wf_logger s \<Longrightarrow> ?thesis" by (simp add: enable_module_rejected)
next
  case False
  then have n: "name \<noteq> []" "length name < MODULE_NAME_LEN" by simp_all
  show "wf_logger s \<Longrightarrow> ?thesis"
    by (simp add: enable_module_accepted[OF n] wf_logger_def table_ok_add n)
qed

lemma wf_disable_module: "wf_logger s \<Longrightarrow> wf_logger (disable_module env name s)"
proof (cases "name = []")
  case True
  then show "wf_logger s \<Longrightarrow> ?thesis" by (simp add: disable_module_def)
next
  case False
  show "wf_logger s \<Longrightarrow> ?thesis"
    by (simp add: disable_module_accepted[OF False] wf_logger_def table_ok_remove)
qed

lemma wf_enable_all_modules: "wf_logger s \<Longrightarrow> wf_logger (enable_all_modules env s)"
  by (simp add: enable_all_modules_eq wf_logger_def table_ok_clear)

lemma wf_apply_op: "wf_logger s \<Longrightarrow> wf_logger (apply_op env s op)"
  by (cases op) (simp_all add: wf_enable_module wf_disable_module wf_enable_all_modules wf_init_once)



lemma run_ops_wf: "wf_logger s \<Longrightarrow> wf_logger (foldl (apply_op env) s ops)"
  by (induction ops arbitrary: s) (simp_all add: wf_apply_op)











section \<open>The module table and its operations (claims C5, C6)\<close>

lemma table_ok_initial: "table_ok (g_modules initial_logger)"
  using wf_initial by (simp add: wf_logger_def)

lemma registered_initial: "registered (g_modules initial_logger) = []"
  by (simp add: registered_def initial_logger_def)

lemma count_initial: "count (g_modules initial_logger) = 0"
  by (simp add: initial_logger_def)







text \<open>
  Claim C6, as stated, fails: \<open>disable_module\<close> with a name that is not in the table
  changes the state of a fresh process (it marks the modules as explicitly set and runs
  the lazy initialization).
\<close>

theorem disable_absent_counterexample:
  "''x'' \<notin> set (registered (g_modules initial_logger)) \<and>
   disable_module sample_env ''x'' initial_logger \<noteq> initial_logger"
proof -
  have "g_init_once (disable_module sample_env ''x'' initial_logger)"
    by (simp add: disable_module_def Let_def)
  moreover have "\<not> g_init_once initial_logger" by (simp add: initial_logger_def)
  ultimately have "disable_module sample_env ''x'' initial_logger \<noteq> initial_logger" by metis
  then show ?thesis by (simp add: registered_initial)
qed

lemma update_modules_same: "g_modules s' = m \<Longrightarrow> s'\<lparr>g_modules := m\<rparr> = s'"
  by auto

text \<open>
  Claim C6, amended. In a well-formed state: calling \<open>enable_module\<close> twice with a name
  free of NUL bytes gives exactly the state of calling it once. \<open>disable_module\<close> with a
  non-empty name that is not in the table, and \<open>enable_all_modules\<close> with no module
  registered, leave the table and \<open>filter_active\<close> as they are: their whole effect is to
  mark the modules as explicitly set and to run the lazy initialization, so they change
  nothing at all once both have happened. \<open>disable_module\<close> with the empty name changes
  nothing.
\<close>

theorem module_ops_idempotent:
  assumes "wf_logger s"
  shows "(NUL \<notin> set name \<longrightarrow>
            enable_module env' name (enable_module env name s) = enable_module env name s) \<and>
         (name \<notin> set (registered (g_modules s)) \<longrightarrow>
            disable_module env name s =
              (if name = [] then s else init_once env (s\<lparr>g_modules_set_explicitly := True\<rparr>)) \<and>
            g_modules (disable_module env name s) = g_modules s) \<and>
         (count (g_modules s) = 0 \<longrightarrow>
            enable_all_modules env s = init_once env (s\<lparr>g_modules_set_explicitly := True\<rparr>) \<and>
            g_modules (enable_all_modules env s) = g_modules s) \<and>
         (g_init_once s \<and> g_modules_set_explicitly s \<longrightarrow>
            init_once env (s\<lparr>g_modules_set_explicitly := True\<rparr>) = s)"
proof -
  have t: "table_ok (g_modules s)" using assms by (simp add: wf_logger_def)
  let ?s0 = "init_once env (s\<lparr>g_modules_set_explicitly := True\<rparr>)"
  have m0: "g_modules ?s0 = g_modules s" by (simp add: init_once_modules_explicit)
  have twice: "enable_module env' name (enable_module env name s) = enable_module env name s"
    if nul: "NUL \<notin> set name"
  proof (cases "name = [] \<or> length name \<ge> MODULE_NAME_LEN")
    case True
    then show ?thesis by (simp add: enable_module_rejected)
  next
    case False
    then have n: "name \<noteq> []" "length name < MODULE_NAME_LEN" by simp_all
    let ?m1 = "add_module_locked name (g_modules s)"
    let ?s1 = "enable_module env name s"
    have s1: "?s1 = ?s0\<lparr>g_modules := ?m1\<rparr>" by (rule enable_module_accepted[OF n])
    have dn: "g_init_once ?s1" "g_modules_set_explicitly ?s1" "g_modules ?s1 = ?m1"
      by (simp_all add: s1)
    have t1: "table_ok ?m1" using t n(2) by (rule table_ok_add)
    have "name \<in> set (registered ?m1) \<or> \<not> count ?m1 < MAX_MODULES"
      using registered_add[OF t n(2)] nul
      by (auto simp: cstr_id add_module_locked_cases)
    then have again: "add_module_locked name ?m1 = ?m1" by (simp add: add_module_locked_cases)
    have e: "?s1\<lparr>g_modules_set_explicitly := True\<rparr> = ?s1" using dn(2) by simp
    have "enable_module env' name ?s1 =
        (init_once env' (?s1\<lparr>g_modules_set_explicitly := True\<rparr>))\<lparr>g_modules := add_module_locked name (g_modules ?s1)\<rparr>"
      by (rule enable_module_accepted[OF n])
    also have "\<dots> = ?s1\<lparr>g_modules := ?m1\<rparr>"
      unfolding e using dn(1) by (simp add: dn(3) again)
    also have "\<dots> = ?s1" using dn(3) by (rule update_modules_same)
    finally show ?thesis .
  qed
  have absent: "disable_module env name s = (if name = [] then s else ?s0) \<and>
      g_modules (disable_module env name s) = g_modules s"
    if a: "name \<notin> set (registered (g_modules s))"
  proof (cases "name = []")
    case True
    then show ?thesis by (simp add: disable_module_def)
  next
    case False
    have "remove_module_locked name (g_modules s) = g_modules s"
      using t a by (intro remove_absent) (simp_all add: table_ok_def)
    then have "disable_module env name s = ?s0\<lparr>g_modules := g_modules s\<rparr>"
      by (simp add: disable_module_accepted[OF False])
    also have "\<dots> = ?s0" using m0 by (rule update_modules_same)
    finally show ?thesis using False m0 by simp
  qed
  have none: "enable_all_modules env s = ?s0 \<and> g_modules (enable_all_modules env s) = g_modules s"
    if c: "count (g_modules s) = 0"
  proof -
    have "\<not> filter_active (g_modules s)" using t c by (simp add: table_ok_def)
    then have "(g_modules s)\<lparr>count := 0, filter_active := False\<rparr> = g_modules s"
      using c by simp
    then have "enable_all_modules env s = ?s0\<lparr>g_modules := g_modules s\<rparr>"
      by (simp add: enable_all_modules_eq)
    also have "\<dots> = ?s0" using m0 by (rule update_modules_same)
    finally show ?thesis using m0 by simp
  qed
  have noop: "?s0 = s" if "g_init_once s \<and> g_modules_set_explicitly s"
    using that by simp
  from twice absent none noop show ?thesis by blast
qed

theorem module_ops_idempotent_witness:
  "enable_module sample_env ''x'' (enable_module sample_env ''x'' initial_logger) =
     enable_module sample_env ''x'' initial_logger \<and>
   g_modules (disable_module sample_env ''x'' initial_logger) = g_modules initial_logger \<and>
   g_modules (enable_all_modules sample_env initial_logger) = g_modules initial_logger"
proof -
  have "NUL \<notin> set ''x''" by (simp add: NUL_def)
  moreover have "''x'' \<notin> set (registered (g_modules initial_logger))"
    by (simp add: registered_initial)
  moreover have "count (g_modules initial_logger) = 0" by (simp add: initial_logger_def)
  ultimately show ?thesis
    using module_ops_idempotent[OF wf_initial, of "''x''" sample_env sample_env] by blast
qed

section \<open>Explicit calls and environment defaults (claim C3)\<close>










section \<open>The log entry points (claims C1, C4, C8, C10)\<close>

lemma log_unfold:
  "log env clk entry r s =
     (if \<not> log_is_enabled (init_once env s) \<or>
         level_int (level entry) < min_level (init_once env s)
      then init_once env s
      else case r of
        Some msg \<Rightarrow>
          if msg = [] then init_once env s
          else write_log_line env clk (level entry) [] msg (loc entry) (init_once env s)
      | None \<Rightarrow> write_raw fallback (init_once env s))"
  by (simp add: log_def Let_def)

lemma log_module_unfold:
  "log_module env clk entry m r s =
     (if \<not> log_is_enabled (init_once env s) \<or>
         level_int (level entry) < min_level (init_once env s) \<or>
         (m \<noteq> [] \<and> \<not> module_is_enabled m (init_once env s))
      then init_once env s
      else case r of
        Some msg \<Rightarrow>
          if msg = [] then init_once env s
          else write_log_line env clk (level entry) m msg (loc entry) (init_once env s)
      | None \<Rightarrow> write_raw fallback (init_once env s))"
  by (simp add: log_module_def Let_def)

lemma sink_ok_init_once [simp]: "sink_ok (init_once env s) = sink_ok s"
  by (rule sink_ok_cong) simp_all

lemma line_observed:
  assumes "msg \<noteq> []"
  shows "(\<exists>evs. trace (write_log_line env clk lvl m msg sloc (init_once env s)) = trace s @ evs \<and>
            list_ex (offers (g_sink s) msg) evs) \<and>
         (sink_ok s \<longrightarrow>
            (\<exists>head. emitted (trace (write_log_line env clk lvl m msg sloc (init_once env s))) =
               emitted (trace s) @ head @ msg))"
proof -
  from write_log_line_offers[OF assms, of env clk lvl m sloc "init_once env s"]
  have a: "\<exists>evs. trace (write_log_line env clk lvl m msg sloc (init_once env s)) = trace s @ evs \<and>
            list_ex (offers (g_sink s) msg) evs" by simp
  have b: "\<exists>head. emitted (trace (write_log_line env clk lvl m msg sloc (init_once env s))) =
               emitted (trace s) @ head @ msg" if "sink_ok s"
  proof -
    from that have "sink_ok (init_once env s)" by simp
    from write_log_line_emitted[OF this, of env clk lvl m msg sloc] show ?thesis
      by (intro exI[of _ "line_head env clk lvl m sloc (init_once env s)"]) simp
  qed
  from a b show ?thesis by blast
qed

text \<open>
  Claim C1. Let \<open>s1\<close> be the state after the lazy initialization that opens every log
  call. If logging is disabled in \<open>s1\<close>, both overloads return \<open>s1\<close> and the trace is
  the one before the call, whatever the level, the module and the message. If logging
  is enabled and the level is below the minimum level of \<open>s1\<close>, the same holds. If
  logging is enabled, the level is at least the minimum, the rendered message is not
  empty and (for the module overload) the tag is empty or enabled, the call extends the
  trace by events one of which hands the message to the sink in force, and when no
  output is lost the bytes delivered end with the message. The level is arbitrary.
\<close>

theorem log_gates:
  assumes "s1 = init_once env s"
  shows "trace s1 = trace s \<and>
         (\<not> log_is_enabled s1 \<longrightarrow>
            log env clk entry r s = s1 \<and> log_module env clk entry m r s = s1) \<and>
         (log_is_enabled s1 \<and> level_int (level entry) < min_level s1 \<longrightarrow>
            log env clk entry r s = s1 \<and> log_module env clk entry m r s = s1) \<and>
         (log_is_enabled s1 \<and> min_level s1 \<le> level_int (level entry) \<and> msg \<noteq> [] \<longrightarrow>
            (\<exists>evs. trace (log env clk entry (Some msg) s) = trace s @ evs \<and>
               list_ex (offers (g_sink s) msg) evs) \<and>
            (sink_ok s \<longrightarrow>
               (\<exists>head. emitted (trace (log env clk entry (Some msg) s)) =
                  emitted (trace s) @ head @ msg))) \<and>
         (log_is_enabled s1 \<and> min_level s1 \<le> level_int (level entry) \<and> msg \<noteq> [] \<and>
          (m = [] \<or> module_is_enabled m s1) \<longrightarrow>
            (\<exists>evs. trace (log_module env clk entry m (Some msg) s) = trace s @ evs \<and>
               list_ex (offers (g_sink s) msg) evs) \<and>
            (sink_ok s \<longrightarrow>
               (\<exists>head. emitted (trace (log_module env clk entry m (Some msg) s)) =
                  emitted (trace s) @ head @ msg)))"
proof -
  have t: "trace s1 = trace s" by (simp add: assms)
  have off: "log env clk entry r s = s1 \<and> log_module env clk entry m r s = s1"
    if "\<not> log_is_enabled s1 \<or> level_int (level entry) < min_level s1"
    using that by (auto simp: log_unfold log_module_unfold assms)
  have on1: "log env clk entry (Some msg) s =
      write_log_line env clk (level entry) [] msg (loc entry) (init_once env s)"
    if "log_is_enabled s1" "min_level s1 \<le> level_int (level entry)" "msg \<noteq> []"
    using that by (simp add: log_unfold assms)
  have on2: "log_module env clk entry m (Some msg) s =
      write_log_line env clk (level entry) m msg (loc entry) (init_once env s)"
    if "log_is_enabled s1" "min_level s1 \<le> level_int (level entry)" "msg \<noteq> []"
      "m = [] \<or> module_is_enabled m s1"
    using that by (auto simp: log_module_unfold assms)
  have c4: "(\<exists>evs. trace (log env clk entry (Some msg) s) = trace s @ evs \<and>
               list_ex (offers (g_sink s) msg) evs) \<and>
            (sink_ok s \<longrightarrow>
               (\<exists>head. emitted (trace (log env clk entry (Some msg) s)) =
                  emitted (trace s) @ head @ msg))"
    if "log_is_enabled s1 \<and> min_level s1 \<le> level_int (level entry) \<and> msg \<noteq> []"
  proof -
    from that have e: "log env clk entry (Some msg) s =
        write_log_line env clk (level entry) [] msg (loc entry) (init_once env s)"
      by (intro on1) simp_all
    from that have "msg \<noteq> []" by simp
    then show ?thesis unfolding e by (rule line_observed)
  qed
  have c5: "(\<exists>evs. trace (log_module env clk entry m (Some msg) s) = trace s @ evs \<and>
               list_ex (offers (g_sink s) msg) evs) \<and>
            (sink_ok s \<longrightarrow>
               (\<exists>head. emitted (trace (log_module env clk entry m (Some msg) s)) =
                  emitted (trace s) @ head @ msg))"
    if "log_is_enabled s1 \<and> min_level s1 \<le> level_int (level entry) \<and> msg \<noteq> [] \<and>
          (m = [] \<or> module_is_enabled m s1)"
  proof -
    from that have e: "log_module env clk entry m (Some msg) s =
        write_log_line env clk (level entry) m msg (loc entry) (init_once env s)"
      by (intro on2) simp_all
    from that have "msg \<noteq> []" by simp
    then show ?thesis unfolding e by (rule line_observed)
  qed
  show ?thesis
    using t off c4 c5 by (intro conjI impI) simp_all
qed

lemma sample_logger_fields:
  "g_log_enabled sample_logger" "g_sink sample_logger = Some 1" "trace sample_logger = []"
  "\<not> g_init_once sample_logger" "\<not> g_min_level_set_explicitly sample_logger"
  "\<not> g_modules_set_explicitly sample_logger" "g_modules sample_logger = g_modules initial_logger"
  by (simp_all add: sample_logger_def set_sink_def enable_logging_def initial_logger_def)

lemma sample_min_level: "min_level (init_once sample_env sample_logger) = 1"
  by (simp add: min_level_def init_once_def init_from_env_level sample_logger_fields
      sample_env_def cstr_def NUL_def to_lower_def)

lemma sample_enabled: "log_is_enabled (init_once sample_env sample_logger)"
  by (simp add: log_is_enabled_def sample_logger_fields)

theorem log_gates_witness:
  "log sample_env sample_clock (sample_entry Info) (Some ''dropped'') sample_logger =
     init_once sample_env sample_logger \<and>
   log_module sample_env sample_clock (sample_entry Error) ''alloc'' (Some ''off'')
     (disable_logging sample_logger) = init_once sample_env (disable_logging sample_logger) \<and>
   (\<exists>evs. trace (log sample_env sample_clock (sample_entry Warn) (Some ''kept'') sample_logger) =
      trace sample_logger @ evs \<and> list_ex (offers (Some 1) ''kept'') evs)"
proof -
  have off: "\<not> log_is_enabled (init_once sample_env (disable_logging sample_logger))"
    by (simp add: log_is_enabled_def disable_logging_def)
  have lo: "level_int (level (sample_entry Info)) < min_level (init_once sample_env sample_logger)"
    by (simp add: sample_min_level sample_entry_def)
  have hi: "min_level (init_once sample_env sample_logger) \<le> level_int (level (sample_entry Warn))"
    by (simp add: sample_min_level sample_entry_def)
  have "log sample_env sample_clock (sample_entry Info) (Some ''dropped'') sample_logger =
      init_once sample_env sample_logger"
    using log_gates[OF refl, of sample_env sample_logger sample_clock "sample_entry Info"
        "Some ''dropped''" "[]" "[]"] sample_enabled lo by blast
  moreover have "log_module sample_env sample_clock (sample_entry Error) ''alloc'' (Some ''off'')
      (disable_logging sample_logger) = init_once sample_env (disable_logging sample_logger)"
    using log_gates[OF refl, of sample_env "disable_logging sample_logger" sample_clock
        "sample_entry Error" "Some ''off''" "''alloc''" "[]"] off by blast
  moreover have "\<exists>evs. trace (log sample_env sample_clock (sample_entry Warn) (Some ''kept'')
      sample_logger) = trace sample_logger @ evs \<and> list_ex (offers (Some 1) ''kept'') evs"
    using log_gates[OF refl, of sample_env sample_logger sample_clock "sample_entry Warn"
        "None" "[]" "''kept''"] sample_enabled hi
    by (simp add: sample_logger_fields)
  ultimately show ?thesis by blast
qed

text \<open>
  Claim C8. When logging is enabled, the level passes and (for the module overload) the
  tag is empty or enabled, a call whose rendering throws returns normally, and what it
  does is one raw write of the fixed text \<open>coretrace: log format error\<close> and a newline
  to the sink in force, in the state after the lazy initialization: with a custom sink
  the trace grows by that single callback and nothing else.
\<close>

theorem render_failure_fallback:
  assumes "s1 = init_once env s" and "log_is_enabled s1"
    and "min_level s1 \<le> level_int (level entry)"
  shows "log env clk entry None s = write_raw fallback s1 \<and>
         (m = [] \<or> module_is_enabled m s1 \<longrightarrow>
            log_module env clk entry m None s = write_raw fallback s1) \<and>
         fallback = ''coretrace: log format error'' @ [CHR 0x0A] \<and>
         (g_sink s = Some f \<longrightarrow>
            trace (log env clk entry None s) = trace s @ [SinkCall f fallback]) \<and>
         (g_sink s = None \<and> fd2_answers s = [] \<longrightarrow>
            trace (log env clk entry None s) =
              trace s @ [Write2 fallback (Wrote (length fallback))])"
proof -
  have l: "log env clk entry None s = write_raw fallback s1"
    using assms by (simp add: log_unfold)
  have ne: "fallback \<noteq> []" by (simp add: fallback_def)
  have a: "trace (write_raw fallback s1) = trace s @ [SinkCall f fallback]" if "g_sink s = Some f"
  proof -
    have "g_sink s1 = Some f" using that assms(1) by simp
    from write_raw_Some[OF this ne] show ?thesis by (simp add: assms(1))
  qed
  have b: "trace (write_raw fallback s1) = trace s @ [Write2 fallback (Wrote (length fallback))]"
    if "g_sink s = None \<and> fd2_answers s = []"
  proof -
    have g: "g_sink s1 = None" and ans: "fd2_answers s1 = []" using that assms(1) by simp_all
    obtain c cs where f: "fallback = c # cs" using ne by (cases fallback) auto
    show ?thesis unfolding write_raw_None[OF g ne] ans by (simp add: assms(1) f)
  qed
  show ?thesis
    using l a b assms by (auto simp: log_module_unfold fallback_def)
qed

theorem render_failure_fallback_witness:
  "log sample_env sample_clock (sample_entry Error) None sample_logger =
     write_raw fallback (init_once sample_env sample_logger) \<and>
   trace (log sample_env sample_clock (sample_entry Error) None sample_logger) =
     [SinkCall 1 fallback]"
proof -
  have hi: "min_level (init_once sample_env sample_logger) \<le> level_int (level (sample_entry Error))"
    by (simp add: sample_min_level sample_entry_def)
  note r = render_failure_fallback[OF refl sample_enabled hi, of sample_clock "[]" 1]
  from r have a: "log sample_env sample_clock (sample_entry Error) None sample_logger =
      write_raw fallback (init_once sample_env sample_logger)" by blast
  from r sample_logger_fields(2)
  have "trace (log sample_env sample_clock (sample_entry Error) None sample_logger) =
      trace sample_logger @ [SinkCall 1 fallback]" by blast
  then have b: "trace (log sample_env sample_clock (sample_entry Error) None sample_logger) =
      [SinkCall 1 fallback]" by (simp only: sample_logger_fields(3) append_Nil)
  from a b show ?thesis by (rule conjI)
qed

text \<open>
  Claim C10. The module overload called with the empty name does exactly what the
  untagged overload does, in every state and for every rendering result: the module
  filter is not consulted and the line is written with the empty module, that is
  without a \<open>(module)\<close> field. So such a call reaches the sink even while the filter is
  active and lists other modules.
\<close>

theorem empty_module_is_untagged:
  "log_module env clk entry [] rendered s = log env clk entry rendered s \<and>
   (filter_active (g_modules (init_once env s)) \<and> log_is_enabled (init_once env s) \<and>
    min_level (init_once env s) \<le> level_int (level entry) \<and> msg \<noteq> [] \<longrightarrow>
      log_module env clk entry [] (Some msg) s =
        write_log_line env clk (level entry) [] msg (loc entry) (init_once env s) \<and>
      (\<exists>evs. trace (log_module env clk entry [] (Some msg) s) = trace s @ evs \<and>
         list_ex (offers (g_sink s) msg) evs))"
proof (intro conjI impI)
  show e: "log_module env clk entry [] r s = log env clk entry r s" for r
    by (simp add: log_module_unfold log_unfold)
  assume a: "filter_active (g_modules (init_once env s)) \<and> log_is_enabled (init_once env s) \<and>
    min_level (init_once env s) \<le> level_int (level entry) \<and> msg \<noteq> []"
  then have l: "log env clk entry (Some msg) s =
      write_log_line env clk (level entry) [] msg (loc entry) (init_once env s)"
    by (simp add: log_unfold)
  show "log_module env clk entry [] (Some msg) s =
      write_log_line env clk (level entry) [] msg (loc entry) (init_once env s)"
    by (simp only: e l)
  from a have "msg \<noteq> []" by simp
  from line_observed[OF this, of env clk "level entry" "[]" "loc entry" s]
  show "\<exists>evs. trace (log_module env clk entry [] (Some msg) s) = trace s @ evs \<and>
         list_ex (offers (g_sink s) msg) evs"
    by (simp only: e l)
qed


section \<open>The module filter at the entry points (claims C10, C4)\<close>

lemma sample_filtering_fields:
  "g_init_once sample_filtering" "g_log_enabled sample_filtering"
  "g_sink sample_filtering = Some 1" "trace sample_filtering = []"
  "g_min_level sample_filtering = 1"
  "registered (g_modules sample_filtering) = [''alloc'']"
  "filter_active (g_modules sample_filtering)"
proof -
  have n: "''alloc'' \<noteq> []" "length ''alloc'' < MODULE_NAME_LEN" by (simp_all add: MODULE_NAME_LEN_def)
  note e = enable_module_accepted[OF n, of sample_env sample_logger, folded sample_filtering_def]
  show "g_init_once sample_filtering" "g_log_enabled sample_filtering"
    "g_sink sample_filtering = Some 1" "trace sample_filtering = []"
    by (simp_all add: e sample_logger_fields)
  show "g_min_level sample_filtering = 1"
    by (simp add: e init_once_def init_from_env_level sample_logger_fields sample_env_def
        cstr_def NUL_def to_lower_def)
  have t: "table_ok (g_modules sample_logger)"
    using table_ok_initial by (simp add: sample_logger_fields)
  from registered_add[OF t n(2)]
  show "registered (g_modules sample_filtering) = [''alloc'']"
    by (simp add: e sample_logger_fields registered_initial count_initial MAX_MODULES_def
        cstr_def NUL_def)
  show "filter_active (g_modules sample_filtering)"
    by (simp add: e sample_logger_fields add_module_locked_cases registered_initial count_initial
        MAX_MODULES_def)
qed

theorem empty_module_is_untagged_witness:
  "filter_active (g_modules sample_filtering) \<and>
   log_module sample_env sample_clock (sample_entry Error) [] (Some ''hi'') sample_filtering =
     log sample_env sample_clock (sample_entry Error) (Some ''hi'') sample_filtering \<and>
   (\<exists>evs. trace (log_module sample_env sample_clock (sample_entry Error) [] (Some ''hi'')
        sample_filtering) = trace sample_filtering @ evs \<and>
      list_ex (offers (Some 1) ''hi'') evs)"
proof -
  have i: "init_once sample_env sample_filtering = sample_filtering"
    by (simp add: sample_filtering_fields)
  have h: "filter_active (g_modules (init_once sample_env sample_filtering)) \<and>
      log_is_enabled (init_once sample_env sample_filtering) \<and>
      min_level (init_once sample_env sample_filtering) \<le> level_int (level (sample_entry Error)) \<and>
      ''hi'' \<noteq> []"
    by (simp add: i sample_filtering_fields log_is_enabled_def min_level_def sample_entry_def)
  note r = empty_module_is_untagged[of sample_env sample_clock "sample_entry Error"
      "Some ''hi''" sample_filtering "''hi''"]
  from r have a: "log_module sample_env sample_clock (sample_entry Error) [] (Some ''hi'')
      sample_filtering = log sample_env sample_clock (sample_entry Error) (Some ''hi'')
      sample_filtering" by blast
  from r h have "\<exists>evs. trace (log_module sample_env sample_clock (sample_entry Error) []
      (Some ''hi'') sample_filtering) = trace sample_filtering @ evs \<and>
      list_ex (offers (g_sink sample_filtering) ''hi'') evs" by blast
  then have b: "\<exists>evs. trace (log_module sample_env sample_clock (sample_entry Error) []
      (Some ''hi'') sample_filtering) = trace sample_filtering @ evs \<and>
      list_ex (offers (Some 1) ''hi'') evs" by (simp only: sample_filtering_fields(3))
  from sample_filtering_fields(7) a b show ?thesis by blast
qed




section \<open>The prefix (claim C7)\<close>

lemma set_prefix_fields [simp]:
  "g_log_enabled (set_prefix p s) = g_log_enabled s"
  "g_modules (set_prefix p s) = g_modules s"
  "g_sink (set_prefix p s) = g_sink s"
  "g_timestamps_enabled (set_prefix p s) = g_timestamps_enabled s"
  "g_source_location_enabled (set_prefix p s) = g_source_location_enabled s"
  "color_cached (set_prefix p s) = color_cached s"
  "pid_cached (set_prefix p s) = pid_cached s"
  "fd2_answers (set_prefix p s) = fd2_answers s"
  "trace (set_prefix p s) = trace s"
  by (simp_all add: set_prefix_def Let_def)










section \<open>Well-formedness is kept by every operation\<close>

text \<open>
  The hypothesis \<open>wf_logger\<close> of the theorems above holds of the initial state and is
  kept by every public operation, so it holds of every state a process can reach.
\<close>

lemma wf_config: "config s' = config s \<Longrightarrow> wf_logger s' = wf_logger s"
  using config_fields(2,3,6)[of s' s] by (simp add: wf_logger_def)

lemma wf_log: "wf_logger s \<Longrightarrow> wf_logger (log env clk entry rendered s)"
  by (simp add: log_unfold wf_init_once wf_config[OF write_log_line_config]
      wf_config[OF write_raw_config] split: option.splits)

lemma wf_log_module: "wf_logger s \<Longrightarrow> wf_logger (log_module env clk entry m rendered s)"
  by (simp add: log_module_unfold wf_init_once wf_config[OF write_log_line_config]
      wf_config[OF write_raw_config] split: option.splits)

lemma wf_set_min_level: "wf_logger s \<Longrightarrow> wf_logger (set_min_level env lvl s)"
proof -
  assume "wf_logger s"
  then have "wf_logger (s\<lparr>g_min_level_set_explicitly := True\<rparr>)" by (simp add: wf_logger_def)
  then have "wf_logger (init_once env (s\<lparr>g_min_level_set_explicitly := True\<rparr>))"
    by (rule wf_init_once)
  then show ?thesis by (simp add: set_min_level_def Let_def wf_logger_def)
qed

lemma wf_switches:
  assumes "wf_logger s"
  shows "wf_logger (enable_logging s)" "wf_logger (disable_logging s)"
    "wf_logger (set_thread_safe b s)" "wf_logger (set_sink fn s)" "wf_logger (reset_sink s)"
    "wf_logger (set_timestamps b s)" "wf_logger (set_source_location b s)"
  using assms
  by (simp_all add: wf_logger_def enable_logging_def disable_logging_def set_thread_safe_def
      set_sink_def reset_sink_def set_timestamps_def set_source_location_def)

lemma wf_writes:
  assumes "wf_logger s"
  shows "wf_logger (write_raw d s)" "wf_logger (write_str d s)" "wf_logger (write_dec v s)"
    "wf_logger (write_hex v s)"
  using assms
  by (simp_all add: wf_config[OF write_raw_config] write_str_def write_dec_def write_hex_def)

end
